theory Spec2Isabelle
  imports Complex_Main "HOL-Library.Signed_Division" "HOL-Library.Sublist"
begin

section \<open>Go strings\<close>

text \<open>
  A Go \<^verbatim>\<open>string\<close> is an immutable sequence of bytes: \<^verbatim>\<open>len\<close> counts bytes and
  \<^verbatim>\<open>s[i:j]\<close> cuts at byte offsets. The model is \<^typ>\<open>string\<close> (a list of 8-bit
  \<^typ>\<open>char\<close>). Go's \<^verbatim>\<open>int\<close> is modelled by \<^typ>\<open>int\<close>: the offsets computed by
  \<^verbatim>\<open>ChunkText\<close> stay below twice the length of the text whenever
  \<open>0 \<le> overlap\<close> and \<open>0 \<le> chunkSize\<close>, so the 64-bit range is never left.
\<close>

datatype panic = SliceBoundsOutOfRange

definition byte :: "char \<Rightarrow> nat" where
  "byte c = of_char c"

text \<open>The slice expression \<^verbatim>\<open>s[lo:hi]\<close>; it panics unless \<open>0 \<le> lo \<le> hi \<le> len(s)\<close>.\<close>

definition slice :: "string \<Rightarrow> int \<Rightarrow> int \<Rightarrow> panic + string" where
  "slice s lo hi =
     (if 0 \<le> lo \<and> lo \<le> hi \<and> hi \<le> int (length s)
      then Inr (take (nat (hi - lo)) (drop (nat lo) s))
      else Inl SliceBoundsOutOfRange)"

text \<open>
  \<^verbatim>\<open>strings.LastIndex(s, substr)\<close>: the byte offset of the last occurrence of
  \<^verbatim>\<open>substr\<close> in \<^verbatim>\<open>s\<close>, or \<open>-1\<close>. The search runs from the highest possible
  offset downwards.
\<close>

primrec LastIndex_from :: "string \<Rightarrow> string \<Rightarrow> nat \<Rightarrow> int" where
  "LastIndex_from s substr 0 =
     (if take (length substr) s = substr then 0 else - 1)"
| "LastIndex_from s substr (Suc k) =
     (if take (length substr) (drop (Suc k) s) = substr then int (Suc k)
      else LastIndex_from s substr k)"

definition LastIndex :: "string \<Rightarrow> string \<Rightarrow> int" where
  "LastIndex s substr =
     (if length s < length substr then - 1
      else LastIndex_from s substr (length s - length substr))"

subsection \<open>UTF-8 decoding (package \<^verbatim>\<open>unicode/utf8\<close>)\<close>

type_synonym rune = nat

definition RuneError :: rune where
  "RuneError = 0xFFFD"

definition RuneSelf :: nat where
  "RuneSelf = 0x80"

definition UTFMax :: int where
  "UTFMax = 4"

text \<open>
  The table \<^verbatim>\<open>first\<close> together with \<^verbatim>\<open>acceptRanges\<close>: for a leading byte, the
  length of the sequence it starts and the range allowed for the second byte;
  \<open>None\<close> for the bytes that start no sequence of two or more bytes.
\<close>

definition first_info :: "nat \<Rightarrow> (nat \<times> nat \<times> nat) option" where
  "first_info b =
     (if b < 0xC2 then None
      else if b < 0xE0 then Some (2, 0x80, 0xBF)
      else if b = 0xE0 then Some (3, 0xA0, 0xBF)
      else if b < 0xED then Some (3, 0x80, 0xBF)
      else if b = 0xED then Some (3, 0x80, 0x9F)
      else if b < 0xF0 then Some (3, 0x80, 0xBF)
      else if b = 0xF0 then Some (4, 0x90, 0xBF)
      else if b < 0xF4 then Some (4, 0x80, 0xBF)
      else if b = 0xF4 then Some (4, 0x80, 0x8F)
      else None)"

definition is_cont :: "nat \<Rightarrow> bool" where
  "is_cont b = (0x80 \<le> b \<and> b \<le> 0xBF)"

text \<open>
  \<^verbatim>\<open>utf8.DecodeRuneInString\<close>: the first rune of \<^verbatim>\<open>s\<close> and its width in bytes;
  \<open>(RuneError, 0)\<close> for the empty string and \<open>(RuneError, 1)\<close> for an invalid
  encoding.
\<close>

definition DecodeRuneInString :: "string \<Rightarrow> rune \<times> nat" where
  "DecodeRuneInString s =
     (if length s < 1 then (RuneError, 0)
      else let s0 = byte (s ! 0) in
      if s0 < RuneSelf then (s0, 1)
      else (case first_info s0 of
         None \<Rightarrow> (RuneError, 1)
       | Some (sz, lo, hi) \<Rightarrow>
           if length s < sz then (RuneError, 1)
           else let s1 = byte (s ! 1) in
           if s1 < lo \<or> hi < s1 then (RuneError, 1)
           else if sz \<le> 2 then ((s0 mod 32) * 64 + s1 mod 64, 2)
           else let s2 = byte (s ! 2) in
           if \<not> is_cont s2 then (RuneError, 1)
           else if sz \<le> 3 then
             ((s0 mod 16) * 4096 + (s1 mod 64) * 64 + s2 mod 64, 3)
           else let s3 = byte (s ! 3) in
           if \<not> is_cont s3 then (RuneError, 1)
           else ((s0 mod 8) * 262144 + (s1 mod 64) * 4096
                   + (s2 mod 64) * 64 + s3 mod 64, 4)))"

definition RuneStart :: "nat \<Rightarrow> bool" where
  "RuneStart b = (\<not> is_cont b)"

text \<open>
  The backward scan of \<^verbatim>\<open>utf8.DecodeLastRuneInString\<close>:
  \<^verbatim>\<open>for start--; start >= lim; start-- { if RuneStart(s[start]) { break } }\<close>,
  entered here after the first decrement. The limit is never negative, so the
  test \<open>0 \<le> start\<close> adds nothing to \<open>start \<ge> limit\<close> there.
\<close>

function scan_start :: "string \<Rightarrow> int \<Rightarrow> int \<Rightarrow> int" where
  "scan_start s start limit =
     (if start \<ge> limit \<and> 0 \<le> start
      then (if RuneStart (byte (s ! nat start)) then start
            else scan_start s (start - 1) limit)
      else start)"
  by pat_completeness auto
termination
  by (relation "measure (\<lambda>(s, start, limit). nat (start + 1))") auto

declare scan_start.simps [simp del]

definition last_rune_start :: "string \<Rightarrow> int" where
  "last_rune_start s =
     (let end = int (length s);
          limit = (if end - UTFMax < 0 then 0 else end - UTFMax);
          start = scan_start s (end - 2) limit
      in if start < 0 then 0 else start)"

definition DecodeLastRuneInString :: "string \<Rightarrow> rune \<times> nat" where
  "DecodeLastRuneInString s =
     (let end = int (length s) in
      if end = 0 then (RuneError, 0)
      else let r = byte (last s) in
      if r < RuneSelf then (r, 1)
      else let start = last_rune_start s;
               (r', size) = DecodeRuneInString (drop (nat start) s)
           in if start + int size \<noteq> end then (RuneError, 1) else (r', size))"

lemma first_info_size:
  "first_info b = Some (sz, lo, hi) \<Longrightarrow> 2 \<le> sz \<and> sz \<le> 4"
  by (simp add: first_info_def split: if_splits)

lemma DecodeRuneInString_size:
  assumes "s \<noteq> []"
  shows "1 \<le> snd (DecodeRuneInString s) \<and> snd (DecodeRuneInString s) \<le> length s"
proof -
  have len: "1 \<le> length s" using assms by (cases s) auto
  show ?thesis
  proof (cases "first_info (byte (s ! 0))")
    case None
    then show ?thesis using len assms by (simp add: DecodeRuneInString_def Let_def)
  next
    case (Some t)
    obtain sz lo hi where t: "t = (sz, lo, hi)" by (cases t)
    from Some t have "2 \<le> sz \<and> sz \<le> 4" using first_info_size by blast
    then show ?thesis
      using len assms by (simp add: DecodeRuneInString_def Some t Let_def)
  qed
qed

lemma scan_start_le: "scan_start s start limit \<le> start"
proof (induction s start limit rule: scan_start.induct)
  case (1 s start limit)
  show ?case
  proof (cases "start \<ge> limit \<and> 0 \<le> start \<and> \<not> RuneStart (byte (s ! nat start))")
    case True
    with 1 have "scan_start s (start - 1) limit \<le> start - 1" by simp
    with True show ?thesis by (subst scan_start.simps) simp
  next
    case False
    then show ?thesis by (subst scan_start.simps) auto
  qed
qed

lemma last_rune_start_bounds:
  "0 \<le> last_rune_start s \<and> (s \<noteq> [] \<longrightarrow> last_rune_start s < int (length s))"
proof -
  define limit where
    "limit = (if int (length s) - UTFMax < 0 then 0 else int (length s) - UTFMax)"
  have sc: "scan_start s (int (length s) - 2) limit \<le> int (length s) - 2"
    by (rule scan_start_le)
  have eq: "last_rune_start s =
      (if scan_start s (int (length s) - 2) limit < 0 then 0
       else scan_start s (int (length s) - 2) limit)"
    by (simp add: last_rune_start_def Let_def limit_def)
  have "s \<noteq> [] \<Longrightarrow> 1 \<le> int (length s)" by (cases s) auto
  with sc show ?thesis unfolding eq by (auto split: if_splits)
qed

lemma DecodeLastRuneInString_nonascii:
  assumes "s \<noteq> []" and "\<not> byte (last s) < RuneSelf"
  shows "DecodeLastRuneInString s =
     (if last_rune_start s + int (snd (DecodeRuneInString (drop (nat (last_rune_start s)) s)))
           \<noteq> int (length s)
      then (RuneError, 1)
      else DecodeRuneInString (drop (nat (last_rune_start s)) s))"
  using assms by (simp add: DecodeLastRuneInString_def Let_def split: prod.splits)

lemma DecodeLastRuneInString_size:
  assumes "s \<noteq> []"
  shows "1 \<le> snd (DecodeLastRuneInString s) \<and> snd (DecodeLastRuneInString s) \<le> length s"
proof (cases "byte (last s) < RuneSelf")
  case True
  with assms show ?thesis by (cases s) (simp_all add: DecodeLastRuneInString_def Let_def)
next
  case False
  let ?k = "nat (last_rune_start s)"
  have b: "0 \<le> last_rune_start s" using last_rune_start_bounds by simp
  show ?thesis
  proof (cases "last_rune_start s + int (snd (DecodeRuneInString (drop ?k s))) \<noteq> int (length s)")
    case True
    with assms False show ?thesis
      by (cases s) (simp_all add: DecodeLastRuneInString_nonascii)
  next
    case eq: False
    then have k: "?k \<le> length s" using b by linarith
    show ?thesis
    proof (cases "drop ?k s = []")
      case True
      then have "?k = length s" using k by simp
      then show ?thesis using last_rune_start_bounds [of s] assms by linarith
    next
      case ne: False
      from DecodeRuneInString_size [OF ne] eq b assms False show ?thesis
        by (simp add: DecodeLastRuneInString_nonascii)
    qed
  qed
qed

text \<open>\<^verbatim>\<open>unicode.IsSpace\<close>: the code points with the Unicode property White_Space.\<close>

definition IsSpace :: "rune \<Rightarrow> bool" where
  "IsSpace r =
     (if r \<le> 0xFF
      then r \<in> {0x09, 0x0A, 0x0B, 0x0C, 0x0D, 0x20, 0x85, 0xA0}
      else r = 0x1680 \<or> (0x2000 \<le> r \<and> r \<le> 0x200A) \<or> r = 0x2028 \<or> r = 0x2029
           \<or> r = 0x202F \<or> r = 0x205F \<or> r = 0x3000)"

text \<open>The table \<^verbatim>\<open>asciiSpace\<close> of package \<^verbatim>\<open>strings\<close>.\<close>

definition asciiSpace :: "nat \<Rightarrow> bool" where
  "asciiSpace c = (c \<in> {0x09, 0x0A, 0x0B, 0x0C, 0x0D, 0x20})"

subsection \<open>Trimming (package \<^verbatim>\<open>strings\<close>)\<close>

text \<open>
  \<^verbatim>\<open>TrimLeftFunc(s, f)\<close> is \<^verbatim>\<open>indexFunc(s, f, false)\<close> followed by \<^verbatim>\<open>s[i:]\<close>: the
  \<^verbatim>\<open>range\<close> loop decodes one rune after the other and stops at the first one that
  does not satisfy \<^verbatim>\<open>f\<close>; the result is empty when there is none.
\<close>

function TrimLeftFunc :: "string \<Rightarrow> (rune \<Rightarrow> bool) \<Rightarrow> string" where
  "TrimLeftFunc s f =
     (if s = [] then []
      else if \<not> f (fst (DecodeRuneInString s)) then s
      else TrimLeftFunc (drop (snd (DecodeRuneInString s)) s) f)"
  by pat_completeness auto
termination
proof (relation "measure (\<lambda>(s, f). length s)")
  fix s :: string and f :: "rune \<Rightarrow> bool"
  assume "s \<noteq> []"
  then show "((drop (snd (DecodeRuneInString s)) s, f), (s, f)) \<in> measure (\<lambda>(s, f). length s)"
    using DecodeRuneInString_size [of s] by (cases s) auto
qed simp

declare TrimLeftFunc.simps [simp del]

text \<open>
  \<^verbatim>\<open>lastIndexFunc(s, f, false)\<close>: the loop
  \<^verbatim>\<open>for i := len(s); i > 0; { r, size := DecodeLastRuneInString(s[0:i]); i -= size; ... }\<close>.
  The argument is the prefix \<^verbatim>\<open>s[0:i]\<close> still to be examined; \<open>-1\<close> when every
  rune satisfies \<^verbatim>\<open>f\<close>.
\<close>

function lastIndexFunc :: "string \<Rightarrow> (rune \<Rightarrow> bool) \<Rightarrow> int" where
  "lastIndexFunc s f =
     (if s = [] then - 1
      else if \<not> f (fst (DecodeLastRuneInString s))
        then int (length s - snd (DecodeLastRuneInString s))
      else lastIndexFunc (take (length s - snd (DecodeLastRuneInString s)) s) f)"
  by pat_completeness auto
termination
proof (relation "measure (\<lambda>(s, f). length s)")
  fix s :: string and f :: "rune \<Rightarrow> bool"
  assume "s \<noteq> []"
  then show "((take (length s - snd (DecodeLastRuneInString s)) s, f), (s, f))
               \<in> measure (\<lambda>(s, f). length s)"
    using DecodeLastRuneInString_size [of s] by (cases s) auto
qed simp

declare lastIndexFunc.simps [simp del]

text \<open>
  \<^verbatim>\<open>TrimRightFunc(s, f)\<close>: cut after the last rune that does not satisfy \<^verbatim>\<open>f\<close>.
\<close>

definition TrimRightFunc :: "string \<Rightarrow> (rune \<Rightarrow> bool) \<Rightarrow> string" where
  "TrimRightFunc s f =
     (let i = lastIndexFunc s f;
          i' = (if i \<ge> 0 \<and> byte (s ! nat i) \<ge> RuneSelf
                then i + int (snd (DecodeRuneInString (drop (nat i) s)))
                else i + 1)
      in take (nat i') s)"

definition TrimFunc :: "string \<Rightarrow> (rune \<Rightarrow> bool) \<Rightarrow> string" where
  "TrimFunc s f = TrimRightFunc (TrimLeftFunc s f) f"

text \<open>
  \<^verbatim>\<open>strings.TrimSpace\<close>. Its second loop moves \<^verbatim>\<open>stop\<close> down from the end of
  \<^verbatim>\<open>s[start:]\<close>; a byte outside ASCII hands over to \<^verbatim>\<open>TrimRightFunc\<close>.
\<close>

function TrimSpace_stop :: "string \<Rightarrow> string" where
  "TrimSpace_stop s =
     (if s = [] then []
      else if byte (last s) \<ge> RuneSelf then TrimRightFunc s IsSpace
      else if asciiSpace (byte (last s)) then TrimSpace_stop (butlast s)
      else s)"
  by pat_completeness auto
termination
  by (relation "measure length") auto

declare TrimSpace_stop.simps [simp del]

text \<open>
  The first loop moves \<^verbatim>\<open>start\<close> up over ASCII white space; a byte outside ASCII
  hands over to \<^verbatim>\<open>TrimFunc\<close> on what is left.
\<close>

fun TrimSpace :: "string \<Rightarrow> string" where
  "TrimSpace [] = []"
| "TrimSpace (c # s) =
     (if byte c \<ge> RuneSelf then TrimFunc (c # s) IsSpace
      else if asciiSpace (byte c) then TrimSpace s
      else TrimSpace_stop (c # s))"

declare TrimSpace.simps [simp del]

section \<open>The chunker: \<^verbatim>\<open>ChunkText\<close>\<close>

text \<open>
  One pass through the body of the loop of \<^verbatim>\<open>ChunkText\<close>, up to the point where the
  chunk is trimmed: the window \<^verbatim>\<open>text[start:end]\<close>, cut back to the last period or
  newline when the window stops short of the end of the text and the test
  \<^verbatim>\<open>lastBreak > start+chunkSize/2\<close> succeeds. The result is the chunk before
  trimming and the value of \<^verbatim>\<open>end\<close>. Go's integer division truncates towards
  zero (\<open>sdiv\<close>).
\<close>

definition lastBreak_of :: "string \<Rightarrow> int" where
  "lastBreak_of chunk =
     (let lastPeriod = LastIndex chunk ''.'';
          lastNewline = LastIndex chunk [CHR 0x0A]
      in if lastNewline > lastPeriod then lastNewline else lastPeriod)"

definition window :: "string \<Rightarrow> int \<Rightarrow> int \<Rightarrow> panic + (string \<times> int)" where
  "window text chunkSize start =
     (let end0 = start + chunkSize;
          end1 = (if end0 > int (length text) then int (length text) else end0)
      in case slice text start end1 of
           Inl p \<Rightarrow> Inl p
         | Inr chunk \<Rightarrow>
             if end1 < int (length text) then
               (let lastBreak = lastBreak_of chunk in
                if lastBreak > start + chunkSize sdiv 2 then
                  (case slice chunk 0 (lastBreak + 1) of
                     Inl p \<Rightarrow> Inl p
                   | Inr chunk' \<Rightarrow> Inr (chunk', start + int (length chunk')))
                else Inr (chunk, end1))
             else Inr (chunk, end1))"

text \<open>
  The loop \<^verbatim>\<open>for start < len(text) { ... }\<close> with the loop variables \<^verbatim>\<open>start\<close> and
  \<^verbatim>\<open>chunks\<close> as arguments. The loop need not terminate, so the function is partial:
  \<open>None\<close> stands for a run that never returns, \<open>Some (Inl p)\<close> for a panic and
  \<open>Some (Inr chunks)\<close> for the slice returned.
\<close>

partial_function (option) ChunkText_loop ::
  "string \<Rightarrow> int \<Rightarrow> int \<Rightarrow> int \<Rightarrow> string list \<Rightarrow> (panic + string list) option" where
  "ChunkText_loop text chunkSize overlap start chunks =
     (if start < int (length text) then
        (case window text chunkSize start of
           Inl p \<Rightarrow> Some (Inl p)
         | Inr (chunk, end) \<Rightarrow>
             (let chunks' = (if TrimSpace chunk \<noteq> [] then chunks @ [TrimSpace chunk]
                             else chunks)
              in if end = int (length text) then Some (Inr chunks')
                 else ChunkText_loop text chunkSize overlap
                        (if end - overlap < 0 then 0 else end - overlap) chunks'))
      else Some (Inr chunks))"

declare ChunkText_loop.simps [code]

definition ChunkText :: "string \<Rightarrow> int \<Rightarrow> int \<Rightarrow> (panic + string list) option" where
  "ChunkText text chunkSize overlap = ChunkText_loop text chunkSize overlap 0 []"

section \<open>Properties of the chunker\<close>

text \<open>
  Claim C5. \<^verbatim>\<open>ChunkText\<close> applied to the 15 characters \<^verbatim>\<open>AAAAAAAAAAAAAAA\<close> with
  chunk size 10 and overlap 2 returns the two chunks \<^verbatim>\<open>AAAAAAAAAA\<close> (10 characters)
  and \<^verbatim>\<open>AAAAAAA\<close> (7 characters), in that order.
\<close>

theorem ChunkText_fifteen_As:
  "ChunkText ''AAAAAAAAAAAAAAA'' 10 2 = Some (Inr [''AAAAAAAAAA'', ''AAAAAAA''])"
  by code_simp

text \<open>
  Claim C1. A window that stops short of the end of the text and whose last period or
  newline lies past the middle of the window (at an offset greater than
  \<open>chunkSize / 2\<close> from the start of the window) is cut at that boundary, for every
  window. The code compares the offset inside the window with
  \<^verbatim>\<open>start+chunkSize/2\<close>, an offset into the whole text, so the two agree for the first
  window only. For the text \<^verbatim>\<open>AAAAAAAAAABBBBBBB.BBCCCCC\<close>, chunk size 10 and overlap 0,
  the second window starts at 10 and holds \<^verbatim>\<open>BBBBBBB.BB\<close>: it stops at 20, short of
  the end at 25, its period is at offset 7, past the midpoint 5, and still the window
  is returned whole and the next one starts at 20.
\<close>

theorem window_second_not_cut_at_boundary:
  "slice ''AAAAAAAAAABBBBBBB.BBCCCCC'' 10 20 = Inr ''BBBBBBB.BB''
   \<and> (20::int) < int (length ''AAAAAAAAAABBBBBBB.BBCCCCC'')
   \<and> lastBreak_of ''BBBBBBB.BB'' = 7 \<and> (7::int) > 10 sdiv 2
   \<and> window ''AAAAAAAAAABBBBBBB.BBCCCCC'' 10 10 = Inr (''BBBBBBB.BB'', 20)
   \<and> ChunkText ''AAAAAAAAAABBBBBBB.BBCCCCC'' 10 0
         = Some (Inr [''AAAAAAAAAA'', ''BBBBBBB.BB'', ''CCCCC''])"
  by code_simp

text \<open>
  The run of the loop on the text \<^verbatim>\<open>aaaa.aaa\<close> with chunk size 6 and overlap 5: the
  first window \<^verbatim>\<open>aaaa.a\<close> is cut after the period, \<^verbatim>\<open>end\<close> is 5, and
  \<^verbatim>\<open>end - overlap\<close> is 0 again. Every pass appends the chunk and starts over at 0.
\<close>

lemma window_aaaa: "window ''aaaa.aaa'' 6 0 = Inr (''aaaa.'', 5)"
  by code_simp

lemma TrimSpace_aaaa: "TrimSpace ''aaaa.'' = ''aaaa.''"
  by code_simp

lemma ChunkText_loop_stuck:
  assumes "ChunkText_loop txt chunkSize overlap start chunks = Some y"
  shows "\<not> (txt = ''aaaa.aaa'' \<and> chunkSize = 6 \<and> overlap = 5 \<and> start = 0)"
proof (rule ChunkText_loop.raw_induct
    [where P = "\<lambda>t c ov st ch y. \<not> (t = ''aaaa.aaa'' \<and> c = 6 \<and> ov = 5 \<and> st = 0)",
      OF _ assms])
  fix loop :: "string \<Rightarrow> int \<Rightarrow> int \<Rightarrow> int \<Rightarrow> string list \<Rightarrow> (panic + string list) option"
  fix t c ov st ch y
  assume IH: "\<And>t c ov st ch y. loop t c ov st ch = Some y \<Longrightarrow>
                 \<not> (t = ''aaaa.aaa'' \<and> c = 6 \<and> ov = 5 \<and> st = 0)"
  assume step: "(if st < int (length t) then
        (case window t c st of
           Inl p \<Rightarrow> Some (Inl p)
         | Inr (chunk, end) \<Rightarrow>
             (let chunks' = (if TrimSpace chunk \<noteq> [] then ch @ [TrimSpace chunk]
                             else ch)
              in if end = int (length t) then Some (Inr chunks')
                 else loop t c ov
                        (if end - ov < 0 then 0 else end - ov) chunks'))
      else Some (Inr ch)) = Some y"
  show "\<not> (t = ''aaaa.aaa'' \<and> c = 6 \<and> ov = 5 \<and> st = 0)"
  proof
    assume a: "t = ''aaaa.aaa'' \<and> c = 6 \<and> ov = 5 \<and> st = 0"
    with step have "loop ''aaaa.aaa'' 6 5 0 (ch @ [''aaaa.'']) = Some y"
      by (simp add: window_aaaa TrimSpace_aaaa)
    from IH [OF this] show False by simp
  qed
qed

text \<open>
  Claim C2. For every text, every \<open>chunkSize > 0\<close> and every overlap with
  \<open>0 \<le> overlap < chunkSize\<close>, \<^verbatim>\<open>ChunkText\<close> terminates and returns a finite sequence of
  chunks. The code does not: with chunk size 6 and overlap 5 the call on \<^verbatim>\<open>aaaa.aaa\<close>
  never returns (the value \<open>None\<close> of the partial function), although
  \<open>0 \<le> 5 < 6\<close>.
\<close>

theorem ChunkText_never_returns:
  "(0::int) < 6 \<and> (0::int) \<le> 5 \<and> (5::int) < 6 \<and> ChunkText ''aaaa.aaa'' 6 5 = None"
proof -
  have "ChunkText_loop ''aaaa.aaa'' 6 5 0 [] = None"
  proof (cases "ChunkText_loop ''aaaa.aaa'' 6 5 0 []")
    case None
    then show ?thesis .
  next
    case (Some y)
    from ChunkText_loop_stuck [OF Some] show ?thesis by simp
  qed
  then show ?thesis by (simp add: ChunkText_def)
qed

section \<open>The type \<^verbatim>\<open>float32\<close>\<close>

text \<open>Rounding a real to the nearest integer, a tie going to the even one.\<close>

definition rhe :: "real \<Rightarrow> int" where
  "rhe x =
     (let f = \<lfloor>x\<rfloor>; d = x - of_int f
      in if d < 1/2 then f else if d > 1/2 then f + 1 else if even f then f else f + 1)"

lemma rhe_of_int [simp]: "rhe (of_int n) = n"
  by (simp add: rhe_def)

lemma rhe_zero [simp]: "rhe 0 = 0"
  using rhe_of_int [of 0] by simp

lemma rhe_floor_le: "\<lfloor>x\<rfloor> \<le> rhe x"
  by (simp add: rhe_def Let_def)

lemma rhe_le_floor1: "rhe x \<le> \<lfloor>x\<rfloor> + 1"
  by (simp add: rhe_def Let_def)

lemma rhe_mono: "x \<le> y \<Longrightarrow> rhe x \<le> rhe y"
proof -
  assume xy: "x \<le> y"
  then have fl: "\<lfloor>x\<rfloor> \<le> \<lfloor>y\<rfloor>" by (rule floor_mono)
  show ?thesis
  proof (cases "\<lfloor>x\<rfloor> = \<lfloor>y\<rfloor>")
    case True
    with xy show ?thesis by (auto simp: rhe_def Let_def)
  next
    case False
    with fl have "\<lfloor>x\<rfloor> + 1 \<le> \<lfloor>y\<rfloor>" by simp
    with rhe_le_floor1 [of x] rhe_floor_le [of y] show ?thesis by linarith
  qed
qed

lemma rhe_minus: "rhe (- x) = - rhe x"
proof (cases "x = of_int \<lfloor>x\<rfloor>")
  case True
  then obtain n where "x = of_int n" ..
  then show ?thesis by (simp flip: of_int_minus)
next
  case False
  then have "\<lfloor>- x\<rfloor> = - \<lfloor>x\<rfloor> - 1"
    by (simp add: floor_minus ceiling_altdef)
  moreover have "x - of_int \<lfloor>x\<rfloor> < 1" "0 \<le> x - of_int \<lfloor>x\<rfloor>" by linarith+
  ultimately show ?thesis
    using False by (auto simp: rhe_def Let_def)
qed

text \<open>
  The exponent of a positive real, \<open>\<lfloor>log 2 x\<rfloor>\<close>, computed by halving and doubling.
\<close>

function ilog2 :: "real \<Rightarrow> int" where
  "ilog2 x =
     (if x \<le> 0 then 0
      else if x < 1 then ilog2 (2 * x) - 1
      else if 2 \<le> x then ilog2 (x / 2) + 1
      else 0)"
  by pat_completeness auto
termination
proof (relation "measure (\<lambda>x. nat \<bar>\<lfloor>log 2 x\<rfloor>\<bar>)")
  show "wf (measure (\<lambda>x. nat \<bar>\<lfloor>log 2 x\<rfloor>\<bar>))" by simp
next
  fix x :: real
  assume a: "\<not> x \<le> 0" "x < 1"
  then have "log 2 (2 * x) = log 2 x + 1" by (simp add: log_mult)
  moreover have "log 2 x < 0" using a by simp
  ultimately have "\<lfloor>log 2 (2 * x)\<rfloor> = \<lfloor>log 2 x\<rfloor> + 1" "\<lfloor>log 2 x\<rfloor> < 0" by linarith+
  then show "(2 * x, x) \<in> measure (\<lambda>x. nat \<bar>\<lfloor>log 2 x\<rfloor>\<bar>)"
    unfolding in_measure by linarith
next
  fix x :: real
  assume a: "\<not> x \<le> 0" "\<not> x < 1" "2 \<le> x"
  then have "log 2 (x / 2) = log 2 x - 1" by (simp add: log_divide)
  moreover have "1 \<le> log 2 x" using a by (simp add: le_log_iff)
  ultimately have "\<lfloor>log 2 (x / 2)\<rfloor> = \<lfloor>log 2 x\<rfloor> - 1" "1 \<le> \<lfloor>log 2 x\<rfloor>" by linarith+
  then show "(x / 2, x) \<in> measure (\<lambda>x. nat \<bar>\<lfloor>log 2 x\<rfloor>\<bar>)"
    unfolding in_measure by linarith
qed

declare ilog2.simps [simp del]

text \<open>
  The binary32 format has 24 significant bits and exponents from \<open>-126\<close> to \<open>127\<close>:
  around a value \<open>x\<close> with \<open>2 ^ k \<le> \<bar>x\<bar> < 2 ^ (k + 1)\<close> its values are the multiples
  of \<open>2 ^ (k - 23)\<close>, and below \<open>2 ^ (-126)\<close> they are the multiples of
  \<open>2 ^ (-149)\<close>. \<open>round_real\<close> is the nearest such multiple, a tie going to the even
  one (the rounding of every \<^verbatim>\<open>float32\<close> operation in Go); the overflow to an infinity
  is in \<open>round_f32\<close> below.
\<close>

definition ulp_exp :: "real \<Rightarrow> int" where
  "ulp_exp x = max (ilog2 \<bar>x\<bar> - 23) (- 149)"

definition ulp :: "real \<Rightarrow> real" where
  "ulp x = 2 powi (ulp_exp x)"

definition round_real :: "real \<Rightarrow> real" where
  "round_real x = of_int (rhe (x / ulp x)) * ulp x"

lemma ilog2_eq: "0 < x \<Longrightarrow> ilog2 x = \<lfloor>log 2 x\<rfloor>"
proof (induction x rule: ilog2.induct)
  case (1 x)
  consider "x < 1" | "2 \<le> x" | "1 \<le> x" "x < 2" by linarith
  then show ?case
  proof cases
    case 1
    have "log 2 (2 * x) = log 2 x + 1" using \<open>0 < x\<close> by (simp add: log_mult)
    then have "\<lfloor>log 2 (2 * x)\<rfloor> = \<lfloor>log 2 x\<rfloor> + 1" by linarith
    moreover have "ilog2 x = ilog2 (2 * x) - 1" using 1 \<open>0 < x\<close> by (subst ilog2.simps) simp
    ultimately show ?thesis using "1.IH"(1) 1 \<open>0 < x\<close> by simp
  next
    case 2
    have "log 2 (x / 2) = log 2 x - 1" using \<open>0 < x\<close> by (simp add: log_divide)
    then have "\<lfloor>log 2 (x / 2)\<rfloor> = \<lfloor>log 2 x\<rfloor> - 1" by linarith
    moreover have "ilog2 x = ilog2 (x / 2) + 1" using 2 by (subst ilog2.simps) simp
    ultimately show ?thesis using "1.IH"(2) 2 \<open>0 < x\<close> by simp
  next
    case 3
    then have "0 \<le> log 2 x" "log 2 x < 1" by (simp_all add: less_log_iff log_less_iff)
    then have "\<lfloor>log 2 x\<rfloor> = 0" by linarith
    moreover have "ilog2 x = 0" using 3 by (subst ilog2.simps) simp
    ultimately show ?thesis by simp
  qed
qed

lemma ulp_exp_log: "x \<noteq> 0 \<Longrightarrow> ulp_exp x = max (\<lfloor>log 2 \<bar>x\<bar>\<rfloor> - 23) (- 149)"
  by (simp add: ulp_exp_def ilog2_eq)

lemma ulp_powr: "ulp x = 2 powr of_int (ulp_exp x)"
  by (simp add: ulp_def powr_real_of_int')

lemma ulp_pos: "0 < ulp x"
  by (simp add: ulp_powr)

lemma ulp_minus: "ulp (- x) = ulp x"
  by (simp add: ulp_def ulp_exp_def)

lemma round_real_0: "round_real 0 = 0"
  by (simp add: round_real_def)

lemma round_real_minus: "round_real (- x) = - round_real x"
  by (simp add: round_real_def ulp_minus rhe_minus)

lemma rhe_nonneg: "0 \<le> x \<Longrightarrow> 0 \<le> rhe x"
  using rhe_mono [of 0 x] by simp

lemma round_real_nonneg: "0 \<le> x \<Longrightarrow> 0 \<le> round_real x"
  using ulp_pos [of x] by (simp add: round_real_def rhe_nonneg)

lemma floor_log2_bounds:
  assumes "0 < x"
  shows "2 powr of_int \<lfloor>log 2 x\<rfloor> \<le> x" and "x < 2 powr of_int (\<lfloor>log 2 x\<rfloor> + 1)"
  using floor_log_eq_powr_iff [of x 2 "\<lfloor>log 2 x\<rfloor>"] assms by simp_all

lemma round_real_scaled_mono:
  assumes "x \<le> y" and "ulp x = ulp y"
  shows "round_real x \<le> round_real y"
proof -
  have "x / ulp y \<le> y / ulp y" using assms ulp_pos [of y] by (simp add: divide_right_mono)
  then have "rhe (x / ulp y) \<le> rhe (y / ulp y)" by (rule rhe_mono)
  then show ?thesis using ulp_pos [of y] assms by (simp add: round_real_def)
qed

lemma round_real_upper:
  assumes "0 < x"
  shows "round_real x \<le> 2 powr of_int (ulp_exp x + 24)"
proof -
  let ?k = "\<lfloor>log 2 x\<rfloor>"
  have e: "?k - 23 \<le> ulp_exp x" using assms by (simp add: ulp_exp_log)
  have "x < 2 powr of_int (?k + 1)" using floor_log2_bounds [OF assms] by simp
  also have "\<dots> \<le> 2 powr of_int (ulp_exp x + 24)" using e by simp
  finally have "x < 2 powr of_int (ulp_exp x + 24)" .
  also have "\<dots> = 2 powr 24 * ulp x" by (simp add: ulp_powr powr_add mult.commute)
  finally have "x / ulp x < 2 powr 24" using ulp_pos [of x] by (simp add: pos_divide_less_eq)
  then have "x / ulp x \<le> of_int (2 ^ 24)" by simp
  from rhe_mono [OF this] have "rhe (x / ulp x) \<le> 2 ^ 24" by (simp only: rhe_of_int)
  then have "(of_int (rhe (x / ulp x)) :: real) \<le> of_int (2 ^ 24)" by (simp only: of_int_le_iff)
  then have "of_int (rhe (x / ulp x)) \<le> (2 powr 24 :: real)" by simp
  then have "round_real x \<le> 2 powr 24 * ulp x"
    using ulp_pos [of x] by (simp add: round_real_def)
  also have "\<dots> = 2 powr of_int (ulp_exp x + 24)" by (simp add: ulp_powr powr_add mult.commute)
  finally show ?thesis .
qed

lemma round_real_lower:
  assumes "0 < y" and "- 149 < ulp_exp y"
  shows "2 powr of_int (ulp_exp y + 23) \<le> round_real y"
proof -
  let ?k = "\<lfloor>log 2 y\<rfloor>"
  have e: "ulp_exp y = ?k - 23" using assms by (simp add: ulp_exp_log max_def split: if_splits)
  have "2 powr of_int (ulp_exp y + 23) \<le> y" using floor_log2_bounds(1) [OF assms(1)] e by simp
  moreover have "2 powr of_int (ulp_exp y + 23) = 2 powr 23 * ulp y"
    by (simp add: ulp_powr powr_add mult.commute)
  ultimately have "2 powr 23 \<le> y / ulp y" using ulp_pos [of y] by (simp add: pos_le_divide_eq)
  then have "of_int (2 ^ 23) \<le> y / ulp y" by simp
  from rhe_mono [OF this] have "2 ^ 23 \<le> rhe (y / ulp y)" by (simp only: rhe_of_int)
  then have "(of_int (2 ^ 23) :: real) \<le> of_int (rhe (y / ulp y))" by (simp only: of_int_le_iff)
  then have "(2 powr 23 :: real) \<le> of_int (rhe (y / ulp y))" by simp
  then have "2 powr 23 * ulp y \<le> round_real y"
    using ulp_pos [of y] by (simp add: round_real_def)
  then show ?thesis by (simp add: ulp_powr powr_add mult.commute)
qed

lemma ulp_exp_mono:
  assumes "0 < x" and "x \<le> y"
  shows "ulp_exp x \<le> ulp_exp y"
proof -
  have "log 2 x \<le> log 2 y" using assms by simp
  then have "\<lfloor>log 2 x\<rfloor> \<le> \<lfloor>log 2 y\<rfloor>" by (rule floor_mono)
  then show ?thesis using assms by (simp add: ulp_exp_log)
qed

lemma round_real_mono_pos:
  assumes "0 < x" and "x \<le> y"
  shows "round_real x \<le> round_real y"
proof (cases "ulp_exp x = ulp_exp y")
  case True
  then show ?thesis using assms by (simp add: round_real_scaled_mono ulp_powr)
next
  case False
  with ulp_exp_mono [OF assms] have lt: "ulp_exp x + 1 \<le> ulp_exp y" by simp
  have "- 149 \<le> ulp_exp x" by (simp add: ulp_exp_def)
  with lt have "- 149 < ulp_exp y" by simp
  moreover have "0 < y" using assms by simp
  ultimately have low: "2 powr of_int (ulp_exp y + 23) \<le> round_real y"
    by (rule round_real_lower [rotated])
  have "round_real x \<le> 2 powr of_int (ulp_exp x + 24)" by (rule round_real_upper [OF assms(1)])
  also have "\<dots> \<le> 2 powr of_int (ulp_exp y + 23)" using lt by simp
  finally show ?thesis using low by simp
qed

lemma round_real_mono:
  assumes "x \<le> y"
  shows "round_real x \<le> round_real y"
proof -
  consider "0 < x" | "x \<le> 0" "0 \<le> y" | "y < 0" by linarith
  then show ?thesis
  proof cases
    case 1
    then show ?thesis using assms by (rule round_real_mono_pos)
  next
    case 2
    have "round_real x \<le> 0" using round_real_nonneg [of "- x"] 2 by (simp add: round_real_minus)
    moreover have "0 \<le> round_real y" using 2 by (simp add: round_real_nonneg)
    ultimately show ?thesis by simp
  next
    case 3
    then have "round_real (- y) \<le> round_real (- x)"
      using assms by (intro round_real_mono_pos) simp_all
    then show ?thesis by (simp add: round_real_minus)
  qed
qed

lemma ulp_exp_normal:
  assumes "2 powr of_int k \<le> \<bar>x\<bar>" and "\<bar>x\<bar> < 2 powr of_int (k + 1)"
  shows "ulp_exp x = max (k - 23) (- 149)"
proof -
  have pos: "0 < \<bar>x\<bar>" using assms(1) by (smt (verit) powr_gt_zero)
  then have "\<lfloor>log 2 \<bar>x\<bar>\<rfloor> = k"
    using floor_log_eq_powr_iff [of "\<bar>x\<bar>" 2 k] assms by simp
  moreover have "x \<noteq> 0" using pos by simp
  ultimately show ?thesis by (simp add: ulp_exp_log)
qed

lemma ulp_exp_subnormal:
  assumes "x \<noteq> 0" and "\<bar>x\<bar> < 2 powr of_int (- 126)"
  shows "ulp_exp x = - 149"
proof -
  have pos: "0 < \<bar>x\<bar>" using assms by simp
  have "\<bar>x\<bar> < 2 powr of_int (\<lfloor>log 2 \<bar>x\<bar>\<rfloor> + 1) \<and> 2 powr of_int \<lfloor>log 2 \<bar>x\<bar>\<rfloor> \<le> \<bar>x\<bar>"
    using floor_log2_bounds [OF pos] by simp
  then have "(2::real) powr of_int \<lfloor>log 2 \<bar>x\<bar>\<rfloor> < 2 powr of_int (- 126)"
    using assms(2) by linarith
  then have "\<lfloor>log 2 \<bar>x\<bar>\<rfloor> < - 126" by (simp del: of_int_minus)
  then show ?thesis using ulp_exp_log [OF assms(1)] by linarith
qed

lemma round_real_exact:
  assumes x: "x = of_int m * 2 powr of_int e"
    and m: "\<bar>m\<bar> < 2 ^ 24" and e: "- 149 \<le> e" and n: "2 ^ 23 \<le> \<bar>m\<bar> \<or> e = - 149"
  shows "round_real x = x"
proof (cases "m = 0")
  case True
  with x show ?thesis by (simp add: round_real_0)
next
  case False
  have absx: "\<bar>x\<bar> = of_int \<bar>m\<bar> * 2 powr of_int e" by (simp add: x abs_mult)
  have p: "(0::real) < 2 powr of_int e" by simp
  have "ulp_exp x = e"
  proof (cases "2 ^ 23 \<le> \<bar>m\<bar>")
    case True
    then have "(of_int (2 ^ 23) :: real) \<le> of_int \<bar>m\<bar>" by (simp only: of_int_le_iff)
    then have "(2 powr 23 :: real) \<le> of_int \<bar>m\<bar>" by simp
    then have "2 powr 23 * 2 powr of_int e \<le> \<bar>x\<bar>" using p by (simp add: absx)
    then have lo: "2 powr of_int (e + 23) \<le> \<bar>x\<bar>" by (simp add: powr_add mult.commute)
    have "(of_int \<bar>m\<bar> :: real) < of_int (2 ^ 24)" using m by (simp only: of_int_less_iff)
    then have "(of_int \<bar>m\<bar> :: real) < 2 powr 24" by simp
    then have "\<bar>x\<bar> < 2 powr 24 * 2 powr of_int e" using p by (simp add: absx)
    then have hi: "\<bar>x\<bar> < 2 powr of_int (e + 23 + 1)" by (simp add: powr_add mult.commute)
    from ulp_exp_normal [OF lo hi] e show ?thesis by simp
  next
    case False
    with n have e149: "e = - 149" by simp
    from False have "\<bar>m\<bar> < 2 ^ 23" by simp
    then have "(of_int \<bar>m\<bar> :: real) < of_int (2 ^ 23)" by (simp only: of_int_less_iff)
    then have "(of_int \<bar>m\<bar> :: real) < 2 powr 23" by simp
    then have "\<bar>x\<bar> < 2 powr 23 * 2 powr of_int e" using p by (simp add: absx)
    also have "\<dots> = 2 powr (23 + of_int e)" by (simp only: powr_add)
    also have "\<dots> = 2 powr of_int (- 126)" unfolding e149 by simp
    finally have "\<bar>x\<bar> < 2 powr of_int (- 126)" .
    moreover have "x \<noteq> 0" using \<open>m \<noteq> 0\<close> by (simp add: x)
    ultimately show ?thesis using ulp_exp_subnormal e149 by simp
  qed
  then have "ulp x = 2 powr of_int e" by (simp add: ulp_powr)
  then have "x / ulp x = of_int m" by (simp add: x)
  then show ?thesis using \<open>ulp x = 2 powr of_int e\<close> by (simp add: round_real_def x)
qed

text \<open>
  A \<^verbatim>\<open>float32\<close> is a finite value, an infinity or a NaN. The two zeros of the format are
  one value here (Go compares them equal; they differ in how a zero prints and in the
  sign of a quotient by zero, which the engine never forms). Every operation is the
  exact operation on the reals followed by one rounding, as on a machine that does not
  fuse a multiplication with an addition.
\<close>

datatype f32 = NaN | PInf | NInf | Fin real

definition round_f32 :: "real \<Rightarrow> f32" where
  "round_f32 x =
     (let r = round_real x
      in if 2 ^ 128 \<le> r then PInf else if r \<le> - (2 ^ 128) then NInf else Fin r)"

text \<open>A constant of the source, converted to \<^verbatim>\<open>float32\<close>.\<close>

definition f32_lit :: "real \<Rightarrow> f32" where
  "f32_lit c = round_f32 c"

fun fmul :: "f32 \<Rightarrow> f32 \<Rightarrow> f32" where
  "fmul NaN b = NaN"
| "fmul a NaN = NaN"
| "fmul (Fin x) (Fin y) = round_f32 (x * y)"
| "fmul (Fin x) PInf = (if x = 0 then NaN else if 0 < x then PInf else NInf)"
| "fmul (Fin x) NInf = (if x = 0 then NaN else if 0 < x then NInf else PInf)"
| "fmul PInf (Fin y) = (if y = 0 then NaN else if 0 < y then PInf else NInf)"
| "fmul NInf (Fin y) = (if y = 0 then NaN else if 0 < y then NInf else PInf)"
| "fmul PInf PInf = PInf"
| "fmul PInf NInf = NInf"
| "fmul NInf PInf = NInf"
| "fmul NInf NInf = PInf"

fun fadd :: "f32 \<Rightarrow> f32 \<Rightarrow> f32" where
  "fadd NaN b = NaN"
| "fadd a NaN = NaN"
| "fadd (Fin x) (Fin y) = round_f32 (x + y)"
| "fadd (Fin x) PInf = PInf"
| "fadd (Fin x) NInf = NInf"
| "fadd PInf (Fin y) = PInf"
| "fadd NInf (Fin y) = NInf"
| "fadd PInf PInf = PInf"
| "fadd PInf NInf = NaN"
| "fadd NInf PInf = NaN"
| "fadd NInf NInf = NInf"

fun fdiv :: "f32 \<Rightarrow> f32 \<Rightarrow> f32" where
  "fdiv NaN b = NaN"
| "fdiv a NaN = NaN"
| "fdiv (Fin x) (Fin y) =
     (if y = 0 then (if x = 0 then NaN else if 0 < x then PInf else NInf)
      else round_f32 (x / y))"
| "fdiv (Fin x) PInf = Fin 0"
| "fdiv (Fin x) NInf = Fin 0"
| "fdiv PInf (Fin y) = (if 0 \<le> y then PInf else NInf)"
| "fdiv NInf (Fin y) = (if 0 \<le> y then NInf else PInf)"
| "fdiv PInf PInf = NaN"
| "fdiv PInf NInf = NaN"
| "fdiv NInf PInf = NaN"
| "fdiv NInf NInf = NaN"

text \<open>The comparisons \<^verbatim>\<open><\<close>, \<^verbatim>\<open><=\<close>, \<^verbatim>\<open>>\<close> and \<^verbatim>\<open>>=\<close>; each is false when an operand is a NaN.\<close>

fun flt :: "f32 \<Rightarrow> f32 \<Rightarrow> bool" where
  "flt NaN b = False"
| "flt a NaN = False"
| "flt (Fin x) (Fin y) = (x < y)"
| "flt a NInf = False"
| "flt NInf b = True"
| "flt PInf b = False"
| "flt a PInf = True"

fun fle :: "f32 \<Rightarrow> f32 \<Rightarrow> bool" where
  "fle NaN b = False"
| "fle a NaN = False"
| "fle (Fin x) (Fin y) = (x \<le> y)"
| "fle NInf b = True"
| "fle a PInf = True"
| "fle a NInf = False"
| "fle PInf b = False"

definition fgt :: "f32 \<Rightarrow> f32 \<Rightarrow> bool" where
  "fgt a b = flt b a"

definition fge :: "f32 \<Rightarrow> f32 \<Rightarrow> bool" where
  "fge a b = fle b a"

text \<open>The values that are not negative: the finite ones from zero on and \<open>+Inf\<close>.\<close>

definition nonneg :: "f32 \<Rightarrow> bool" where
  "nonneg a = (case a of Fin x \<Rightarrow> 0 \<le> x | PInf \<Rightarrow> True | _ \<Rightarrow> False)"

lemma nonneg_simps [simp]:
  "nonneg (Fin x) = (0 \<le> x)" "nonneg PInf" "\<not> nonneg NInf" "\<not> nonneg NaN"
  by (simp_all add: nonneg_def)

lemma round_f32_nonneg: "0 \<le> x \<Longrightarrow> nonneg (round_f32 x)"
  using round_real_nonneg [of x] by (simp add: round_f32_def Let_def)

lemma round_f32_mono: "x \<le> y \<Longrightarrow> fle (round_f32 x) (round_f32 y)"
  using round_real_mono [of x y] by (simp add: round_f32_def Let_def)

lemma round_f32_exact:
  assumes "x = of_int m * 2 powr of_int e" "\<bar>m\<bar> < 2 ^ 24" "- 149 \<le> e" "2 ^ 23 \<le> \<bar>m\<bar> \<or> e = - 149"
    and "\<bar>x\<bar> < 2 ^ 128"
  shows "round_f32 x = Fin x"
proof -
  have "- (2 ^ 128) < x" "x < 2 ^ 128" using assms(5) by linarith+
  then show ?thesis using round_real_exact [OF assms(1-4)] by (simp add: round_f32_def)
qed

lemma nonneg_fle_PInf: "nonneg a \<Longrightarrow> fle a PInf"
  by (cases a) simp_all

lemma fle_refl: "a \<noteq> NaN \<Longrightarrow> fle a a"
  by (cases a) simp_all

lemma nonneg_fle_refl: "nonneg a \<Longrightarrow> fle a a"
  by (cases a) simp_all

lemma fle_trans: "fle a b \<Longrightarrow> fle b c \<Longrightarrow> fle a c"
  by (cases a; cases b; cases c) simp_all

lemma fadd_nonneg: "nonneg a \<Longrightarrow> nonneg b \<Longrightarrow> nonneg (fadd a b)"
  by (cases a; cases b) (simp_all add: round_f32_nonneg)

lemma fadd_mono:
  "nonneg a \<Longrightarrow> nonneg b \<Longrightarrow> fle a a' \<Longrightarrow> fle b b' \<Longrightarrow> fle (fadd a b) (fadd a' b')"
  by (cases a; cases b; cases a'; cases b')
     (simp_all add: round_f32_mono round_f32_nonneg nonneg_fle_PInf)

lemma fmul_pos_nonneg: "nonneg a \<Longrightarrow> 0 < c \<Longrightarrow> nonneg (fmul a (Fin c))"
  by (cases a) (simp_all add: round_f32_nonneg)

lemma fmul_pos_mono: "nonneg a \<Longrightarrow> fle a a' \<Longrightarrow> 0 < c \<Longrightarrow> fle (fmul a (Fin c)) (fmul a' (Fin c))"
  by (cases a; cases a') (simp_all add: round_f32_mono round_f32_nonneg nonneg_fle_PInf)

lemma fdiv_pos_nonneg: "nonneg a \<Longrightarrow> 0 < c \<Longrightarrow> nonneg (fdiv a (Fin c))"
  by (cases a) (simp_all add: round_f32_nonneg)

lemma fdiv_pos_mono: "nonneg a \<Longrightarrow> fle a a' \<Longrightarrow> 0 < c \<Longrightarrow> fle (fdiv a (Fin c)) (fdiv a' (Fin c))"
  by (cases a; cases a')
     (simp_all add: round_f32_mono divide_right_mono round_f32_nonneg nonneg_fle_PInf)

lemma f32_lit_10: "f32_lit 10 = Fin 10"
  unfolding f32_lit_def by (rule round_f32_exact [of _ 10485760 "- 20"]) (simp_all add: powr_minus)

lemma f32_lit_5: "f32_lit 5 = Fin 5"
  unfolding f32_lit_def by (rule round_f32_exact [of _ 10485760 "- 21"]) (simp_all add: powr_minus)

lemma f32_lit_8: "f32_lit 8 = Fin 8"
  unfolding f32_lit_def by (rule round_f32_exact [of _ 8388608 "- 20"]) (simp_all add: powr_minus)

lemma f32_lit_1: "f32_lit 1 = Fin 1"
  unfolding f32_lit_def by (rule round_f32_exact [of _ 8388608 "- 23"]) (simp_all add: powr_minus)

lemma f32_lit_0: "f32_lit 0 = Fin 0"
  unfolding f32_lit_def by (rule round_f32_exact [of _ 0 "- 149"]) simp_all

lemma f32_lit_half: "f32_lit (1 / 2) = Fin (1 / 2)"
  unfolding f32_lit_def by (rule round_f32_exact [of _ 8388608 "- 24"]) (simp_all add: powr_minus)

text \<open>A literal between a sixteenth and one is a positive finite value.\<close>

lemma f32_lit_pos:
  assumes "1 / 16 \<le> c" "c \<le> 1"
  shows "\<exists>w. f32_lit c = Fin w \<and> 0 < w \<and> w \<le> 1"
proof -
  have a: "round_real (1 / 16) = 1 / 16"
    by (rule round_real_exact [of _ 8388608 "- 27"]) (simp_all add: powr_minus)
  have b: "round_real 1 = 1"
    by (rule round_real_exact [of _ 8388608 "- 23"]) (simp_all add: powr_minus)
  have "1 / 16 \<le> round_real c" using round_real_mono [OF assms(1)] a by simp
  moreover have "round_real c \<le> 1" using round_real_mono [OF assms(2)] b by simp
  ultimately show ?thesis by (simp add: f32_lit_def round_f32_def)
qed

section \<open>Documents and the quality score\<close>

text \<open>The struct \<^verbatim>\<open>Document\<close>.\<close>

record Document =
  Text :: string
  Source :: string
  Similarity :: f32

text \<open>
  \<^verbatim>\<open>calculateQualityScore\<close>. The loop \<^verbatim>\<open>for i, doc := range docs\<close> is \<open>score_loop\<close>, with
  the documents still to come, the index \<^verbatim>\<open>i\<close> and \<^verbatim>\<open>totalScore\<close> as arguments. The first
  value given to \<^verbatim>\<open>weight\<close>, \<^verbatim>\<open>float32(1.0)\<close>, is overwritten in both branches and left out.
\<close>

definition weights :: "f32 list" where
  "weights = [f32_lit 0.5, f32_lit 0.3, f32_lit 0.2]"

fun score_loop :: "Document list \<Rightarrow> nat \<Rightarrow> f32 \<Rightarrow> f32" where
  "score_loop [] i totalScore = totalScore"
| "score_loop (doc # docs) i totalScore =
     (let weight = (if i < length weights then weights ! i else f32_lit 0.1);
          score = fmul (fmul (Similarity doc) weight) (f32_lit 10)
      in score_loop docs (i + 1) (fadd totalScore score))"

definition calculateQualityScore :: "Document list \<Rightarrow> f32" where
  "calculateQualityScore docs =
     (if length docs = 0 then f32_lit 0
      else
        let totalScore = score_loop docs 0 (Fin 0);
            maxPossibleScore =
              (if length docs = 1 then f32_lit 5
               else if length docs = 2 then f32_lit 8
               else fmul (f32_lit (0.5 + 0.3 + 0.2)) (f32_lit 10));
            qualityScore = fmul (fdiv totalScore maxPossibleScore) (f32_lit 10)
        in if fgt qualityScore (f32_lit 10) then f32_lit 10 else qualityScore)"

subsection \<open>The score as the specification words it\<close>

text \<open>
  The specification's reading of the score: every document contributes
  \<open>similarity * weight * 10\<close>, with the weights 0.5, 0.3, 0.2 for the first three
  documents and 0.1 from the fourth on; the sum is divided by 5, 8 or 10 for one, two
  or more documents and capped at 10. \<open>qualityScore_spec\<close> follows these words;
  it is compared with \<open>calculateQualityScore\<close> below.
\<close>

definition positional_weight :: "nat \<Rightarrow> f32" where
  "positional_weight i =
     (if i = 0 then f32_lit 0.5 else if i = 1 then f32_lit 0.3
      else if i = 2 then f32_lit 0.2 else f32_lit 0.1)"

definition contribution :: "nat \<Rightarrow> Document \<Rightarrow> f32" where
  "contribution i d = fmul (fmul (Similarity d) (positional_weight i)) (Fin 10)"

definition weighted_sum :: "Document list \<Rightarrow> f32" where
  "weighted_sum docs = foldl fadd (Fin 0) (map (\<lambda>(i, d). contribution i d) (enumerate 0 docs))"

definition denominator :: "nat \<Rightarrow> f32" where
  "denominator n = (if n = 1 then Fin 5 else if n = 2 then Fin 8 else Fin 10)"

definition clamp10 :: "f32 \<Rightarrow> f32" where
  "clamp10 q = (if fgt q (Fin 10) then Fin 10 else q)"

definition qualityScore_spec :: "Document list \<Rightarrow> f32" where
  "qualityScore_spec docs =
     (if docs = [] then Fin 0
      else clamp10 (fdiv (weighted_sum docs) (denominator (length docs))))"

section \<open>Properties of the quality score\<close>

lemma weight_at: "(if i < length weights then weights ! i else f32_lit 0.1) = positional_weight i"
proof -
  consider "i = 0" | "i = 1" | "i = 2" | "3 \<le> i" by linarith
  then show ?thesis
    by cases (simp_all add: weights_def positional_weight_def)
qed

lemma score_loop_foldl:
  "score_loop docs i t = foldl fadd t (map (\<lambda>(i, d). contribution i d) (enumerate i docs))"
proof (induction docs arbitrary: i t)
  case Nil
  show ?case by simp
next
  case (Cons d docs)
  show ?case
    by (simp only: score_loop.simps Let_def weight_at Cons.IH enumerate_simps list.map foldl_Cons
        contribution_def f32_lit_10 prod.case Suc_eq_plus1)
qed

lemma maxPossibleScore_eq:
  "(if n = 1 then f32_lit 5 else if n = 2 then f32_lit 8
    else fmul (f32_lit (0.5 + 0.3 + 0.2)) (f32_lit 10)) = denominator n"
proof -
  have "round_f32 10 = Fin 10" using f32_lit_10 by (simp add: f32_lit_def)
  then show ?thesis by (simp add: denominator_def f32_lit_5 f32_lit_8 f32_lit_10 f32_lit_1)
qed

lemma calculateQualityScore_eq:
  "calculateQualityScore docs =
     (if docs = [] then Fin 0
      else clamp10 (fmul (fdiv (weighted_sum docs) (denominator (length docs))) (Fin 10)))"
  by (simp add: calculateQualityScore_def Let_def score_loop_foldl weighted_sum_def
      maxPossibleScore_eq f32_lit_10 f32_lit_0 clamp10_def del: One_nat_def)

text \<open>
  Claim C7, as amended. For every list of documents the score is the weighted sum
  (\<open>similarity * weight * 10\<close> per document, weights 0.5, 0.3, 0.2 for the first
  three and 0.1 beyond, added up from the first document on), divided by 5, 8 or 10
  for one, two or more documents, then multiplied by 10, and capped at 10; the score
  of the empty list is 0.
\<close>

theorem calculateQualityScore_formula:
  "calculateQualityScore docs =
     (if docs = [] then Fin 0
      else clamp10 (fmul (fdiv (weighted_sum docs) (denominator (length docs))) (Fin 10)))"
  by (rule calculateQualityScore_eq)

lemma round_f32_quarter: "round_f32 (1 / 4) = Fin (1 / 4)"
  by (rule round_f32_exact [of _ 8388608 "- 25"]) (simp_all add: powr_minus)

lemma round_f32_half: "round_f32 (1 / 2) = Fin (1 / 2)"
  by (rule round_f32_exact [of _ 8388608 "- 24"]) (simp_all add: powr_minus)

lemma round_f32_5_2: "round_f32 (5 / 2) = Fin (5 / 2)"
  by (rule round_f32_exact [of _ 10485760 "- 22"]) (simp_all add: powr_minus)

lemma round_f32_5: "round_f32 5 = Fin 5"
  using f32_lit_5 by (simp add: f32_lit_def)

text \<open>
  Claim C7 as stated (the sum divided by the denominator and capped, without the
  multiplication by 10) fails for a single document of similarity 0.5: the code returns
  5, the stated formula 0.5. Every operation on this input is exact in binary32.
\<close>

theorem qualityScore_one_document_half:
  "calculateQualityScore [\<lparr>Text = ''t'', Source = ''s'', Similarity = Fin (1 / 2)\<rparr>] = Fin 5
   \<and> qualityScore_spec [\<lparr>Text = ''t'', Source = ''s'', Similarity = Fin (1 / 2)\<rparr>] = Fin (1 / 2)"
  by (simp add: calculateQualityScore_def qualityScore_spec_def weighted_sum_def contribution_def
      positional_weight_def denominator_def clamp10_def fgt_def weights_def Let_def
      f32_lit_half f32_lit_10 f32_lit_5 round_f32_quarter round_f32_half round_f32_5_2 round_f32_5)

text \<open>A document whose similarity is a finite value in \<open>[0, 1]\<close>, as the data model asks.\<close>

definition unit_similarity :: "Document \<Rightarrow> bool" where
  "unit_similarity d = (case Similarity d of Fin s \<Rightarrow> 0 \<le> s \<and> s \<le> 1 | _ \<Rightarrow> False)"

lemma unit_similarity_nonneg: "unit_similarity d \<Longrightarrow> nonneg (Similarity d)"
  by (cases "Similarity d") (simp_all add: unit_similarity_def)

lemma nonneg_fle: "nonneg a \<Longrightarrow> fle a b \<Longrightarrow> nonneg b"
  by (cases a; cases b) simp_all

lemma positional_weight_pos: "\<exists>w. positional_weight i = Fin w \<and> 0 < w \<and> w \<le> 1"
  unfolding positional_weight_def
  using f32_lit_pos [of "0.5"] f32_lit_pos [of "0.3"] f32_lit_pos [of "0.2"] f32_lit_pos [of "0.1"]
  by simp

lemma contribution_nonneg: "nonneg (Similarity d) \<Longrightarrow> nonneg (contribution i d)"
proof -
  assume a: "nonneg (Similarity d)"
  obtain w where w: "positional_weight i = Fin w" "0 < w" using positional_weight_pos by blast
  have "nonneg (fmul (Similarity d) (Fin w))" using a w(2) by (rule fmul_pos_nonneg)
  then show ?thesis unfolding contribution_def w(1) by (rule fmul_pos_nonneg) simp
qed

lemma contribution_mono:
  assumes "nonneg (Similarity d)" "fle (Similarity d) (Similarity d')"
  shows "fle (contribution i d) (contribution i d')"
proof -
  obtain w where w: "positional_weight i = Fin w" "0 < w" using positional_weight_pos by blast
  have 1: "nonneg (fmul (Similarity d) (Fin w))" using assms(1) w(2) by (rule fmul_pos_nonneg)
  have 2: "fle (fmul (Similarity d) (Fin w)) (fmul (Similarity d') (Fin w))"
    using assms w(2) by (rule fmul_pos_mono)
  show ?thesis unfolding contribution_def w(1) using 1 2 by (rule fmul_pos_mono) simp
qed

lemma foldl_fadd_mono:
  assumes "list_all2 (\<lambda>d d'. fle (Similarity d) (Similarity d')) docs docs'"
    and "\<forall>d\<in>set docs. nonneg (Similarity d)"
    and "nonneg t" and "fle t t'"
  shows "fle (foldl fadd t (map (\<lambda>(i, d). contribution i d) (enumerate i docs)))
             (foldl fadd t' (map (\<lambda>(i, d). contribution i d) (enumerate i docs')))
         \<and> nonneg (foldl fadd t (map (\<lambda>(i, d). contribution i d) (enumerate i docs)))"
  using assms
proof (induction docs docs' arbitrary: i t t' rule: list_all2_induct)
  case Nil
  then show ?case by simp
next
  case (Cons d docs d' docs')
  have n: "nonneg (Similarity d)" using Cons.prems(1) by simp
  have a: "nonneg (fadd t (contribution i d))"
    using Cons.prems(2) contribution_nonneg [OF n] by (rule fadd_nonneg)
  have b: "fle (fadd t (contribution i d)) (fadd t' (contribution i d'))"
    using Cons.prems(2) contribution_nonneg [OF n] Cons.prems(3) contribution_mono [OF n Cons.hyps(1)]
    by (rule fadd_mono)
  have c: "\<forall>d\<in>set docs. nonneg (Similarity d)" using Cons.prems(1) by simp
  from Cons.IH [OF c a b, of "Suc i"] show ?case by simp
qed

lemma denominator_pos: "\<exists>c. denominator n = Fin c \<and> 0 < c"
  by (simp add: denominator_def)

lemma clamp10_range: "nonneg q \<Longrightarrow> \<exists>r. clamp10 q = Fin r \<and> 0 \<le> r \<and> r \<le> 10"
  by (cases q) (auto simp: clamp10_def fgt_def)

lemma clamp10_mono: "fle q q' \<Longrightarrow> fle (clamp10 q) (clamp10 q')"
  by (cases q; cases q') (auto simp: clamp10_def fgt_def)

lemma quality_nonneg:
  assumes "\<forall>d\<in>set docs. nonneg (Similarity d)"
  shows "nonneg (fmul (fdiv (weighted_sum docs) (denominator (length docs))) (Fin 10))"
proof -
  obtain c where c: "denominator (length docs) = Fin c" "0 < c" using denominator_pos by blast
  have "list_all2 (\<lambda>d d'. fle (Similarity d) (Similarity d')) docs docs"
    using assms by (auto simp: list_all2_conv_all_nth intro!: nonneg_fle_refl)
  from foldl_fadd_mono [OF this assms, of "Fin 0" "Fin 0" 0]
  have "nonneg (weighted_sum docs)" by (simp add: weighted_sum_def)
  then have "nonneg (fdiv (weighted_sum docs) (Fin c))" using c(2) by (rule fdiv_pos_nonneg)
  then show ?thesis unfolding c(1) by (rule fmul_pos_nonneg) simp
qed

text \<open>
  The same without an assumption on the signs. An operation gives a NaN from operands
  that are not NaNs only when it adds the two infinities; everything else in the score
  is monotone.
\<close>

lemma round_f32_not_NaN: "round_f32 x \<noteq> NaN"
  by (simp add: round_f32_def Let_def)

lemma fle_NInf: "a \<noteq> NaN \<Longrightarrow> fle NInf a"
  by (cases a) simp_all

lemma fle_PInf: "a \<noteq> NaN \<Longrightarrow> fle a PInf"
  by (cases a) simp_all

lemma fle_not_NaN: "fle a b \<Longrightarrow> a \<noteq> NaN \<and> b \<noteq> NaN"
  by (cases a; cases b) simp_all

lemma fmul_pos_NaN: "0 < c \<Longrightarrow> fmul a (Fin c) = NaN \<longleftrightarrow> a = NaN"
  by (cases a) (simp_all add: round_f32_not_NaN)

lemma fdiv_pos_NaN: "0 < c \<Longrightarrow> fdiv a (Fin c) = NaN \<longleftrightarrow> a = NaN"
  by (cases a) (simp_all add: round_f32_not_NaN)

lemma fadd_NaN_left: "fadd a b \<noteq> NaN \<Longrightarrow> a \<noteq> NaN"
  by (cases a; cases b) simp_all

lemma fadd_NaN_right: "fadd a b \<noteq> NaN \<Longrightarrow> b \<noteq> NaN"
  by (cases a; cases b) simp_all

lemma fmul_pos_mono_all: "fle a a' \<Longrightarrow> 0 < c \<Longrightarrow> fle (fmul a (Fin c)) (fmul a' (Fin c))"
  by (cases a; cases a')
     (simp_all add: round_f32_mono fle_NInf fle_PInf round_f32_not_NaN)

lemma fdiv_pos_mono_all: "fle a a' \<Longrightarrow> 0 < c \<Longrightarrow> fle (fdiv a (Fin c)) (fdiv a' (Fin c))"
  by (cases a; cases a')
     (simp_all add: round_f32_mono divide_right_mono fle_NInf fle_PInf round_f32_not_NaN)

lemma fadd_mono_all:
  "fle a a' \<Longrightarrow> fle b b' \<Longrightarrow> fadd a b \<noteq> NaN \<Longrightarrow> fadd a' b' \<noteq> NaN
   \<Longrightarrow> fle (fadd a b) (fadd a' b')"
  by (cases a; cases b; cases a'; cases b')
     (simp_all add: round_f32_mono fle_NInf fle_PInf round_f32_not_NaN)

lemma clamp10_NaN: "clamp10 q = NaN \<longleftrightarrow> q = NaN"
  by (cases q) (simp_all add: clamp10_def fgt_def)

lemma contribution_NaN: "contribution i d = NaN \<longleftrightarrow> Similarity d = NaN"
proof -
  obtain w where w: "positional_weight i = Fin w" "0 < w" using positional_weight_pos by blast
  show ?thesis unfolding contribution_def w(1) by (simp add: fmul_pos_NaN w(2))
qed

lemma contribution_mono_all:
  assumes "fle (Similarity d) (Similarity d')"
  shows "fle (contribution i d) (contribution i d')"
proof -
  obtain w where w: "positional_weight i = Fin w" "0 < w" using positional_weight_pos by blast
  have "fle (fmul (Similarity d) (Fin w)) (fmul (Similarity d') (Fin w))"
    using assms w(2) by (rule fmul_pos_mono_all)
  then show ?thesis unfolding contribution_def w(1) by (rule fmul_pos_mono_all) simp
qed

lemma foldl_fadd_NaN: "foldl fadd NaN xs = NaN"
  by (induction xs) simp_all

lemma foldl_fadd_start: "foldl fadd t xs \<noteq> NaN \<Longrightarrow> t \<noteq> NaN"
  using foldl_fadd_NaN by metis

lemma foldl_fadd_similarities:
  "foldl fadd t (map (\<lambda>(i, d). contribution i d) (enumerate i docs)) \<noteq> NaN
   \<Longrightarrow> \<forall>d\<in>set docs. Similarity d \<noteq> NaN"
proof (induction docs arbitrary: i t)
  case Nil
  show ?case by simp
next
  case (Cons d docs)
  from Cons.prems
  have r: "foldl fadd (fadd t (contribution i d))
             (map (\<lambda>(i, d). contribution i d) (enumerate (Suc i) docs)) \<noteq> NaN"
    by simp
  then have "fadd t (contribution i d) \<noteq> NaN" by (rule foldl_fadd_start)
  then have "contribution i d \<noteq> NaN" by (rule fadd_NaN_right)
  then have "Similarity d \<noteq> NaN" by (simp add: contribution_NaN)
  with Cons.IH [OF r] show ?case by simp
qed

lemma foldl_fadd_mono_all:
  assumes "list_all2 (\<lambda>d d'. fle (Similarity d) (Similarity d')) docs docs'"
    and "fle t t'"
    and "foldl fadd t (map (\<lambda>(i, d). contribution i d) (enumerate i docs)) \<noteq> NaN"
    and "foldl fadd t' (map (\<lambda>(i, d). contribution i d) (enumerate i docs')) \<noteq> NaN"
  shows "fle (foldl fadd t (map (\<lambda>(i, d). contribution i d) (enumerate i docs)))
             (foldl fadd t' (map (\<lambda>(i, d). contribution i d) (enumerate i docs')))"
  using assms
proof (induction docs docs' arbitrary: i t t' rule: list_all2_induct)
  case Nil
  then show ?case by simp
next
  case (Cons d docs d' docs')
  from Cons.prems(2)
  have r: "foldl fadd (fadd t (contribution i d))
             (map (\<lambda>(i, d). contribution i d) (enumerate (Suc i) docs)) \<noteq> NaN"
    by simp
  from Cons.prems(3)
  have r': "foldl fadd (fadd t' (contribution i d'))
             (map (\<lambda>(i, d). contribution i d) (enumerate (Suc i) docs')) \<noteq> NaN"
    by simp
  have "fle (fadd t (contribution i d)) (fadd t' (contribution i d'))"
    using Cons.prems(1) contribution_mono_all [OF Cons.hyps(1)]
      foldl_fadd_start [OF r] foldl_fadd_start [OF r']
    by (rule fadd_mono_all)
  from Cons.IH [OF this r r'] show ?case by simp
qed

lemma quality_NaN:
  "fmul (fdiv (weighted_sum docs) (denominator (length docs))) (Fin 10) = NaN
   \<longleftrightarrow> weighted_sum docs = NaN"
proof -
  obtain c where c: "denominator (length docs) = Fin c" "0 < c" using denominator_pos by blast
  show ?thesis unfolding c(1) by (simp add: fmul_pos_NaN fdiv_pos_NaN c(2))
qed

lemma calculateQualityScore_NaN:
  "calculateQualityScore docs = NaN \<longleftrightarrow> docs \<noteq> [] \<and> weighted_sum docs = NaN"
  by (simp add: calculateQualityScore_eq clamp10_NaN quality_NaN)

lemma quality_mono_all:
  assumes "list_all2 (\<lambda>d d'. fle (Similarity d) (Similarity d')) docs docs'"
    and "weighted_sum docs \<noteq> NaN" and "weighted_sum docs' \<noteq> NaN"
  shows "fle (fmul (fdiv (weighted_sum docs) (denominator (length docs))) (Fin 10))
             (fmul (fdiv (weighted_sum docs') (denominator (length docs'))) (Fin 10))"
proof -
  have len: "length docs = length docs'" using assms(1) by (rule list_all2_lengthD)
  obtain c where c: "denominator (length docs) = Fin c" "0 < c" using denominator_pos by blast
  have "fle (Fin 0) (Fin 0)" by simp
  from foldl_fadd_mono_all [OF assms(1) this, of 0] assms(2,3)
  have "fle (weighted_sum docs) (weighted_sum docs')" by (simp add: weighted_sum_def)
  then have "fle (fdiv (weighted_sum docs) (Fin c)) (fdiv (weighted_sum docs') (Fin c))"
    using c(2) by (rule fdiv_pos_mono_all)
  then show ?thesis unfolding len [symmetric] c(1) by (rule fmul_pos_mono_all) simp
qed

lemma weighted_sum_similarities:
  "weighted_sum docs \<noteq> NaN \<Longrightarrow> \<forall>d\<in>set docs. Similarity d \<noteq> NaN"
  unfolding weighted_sum_def by (rule foldl_fadd_similarities)

lemma calculateQualityScore_mono_all:
  assumes "i < length docs" and "fle (Similarity (docs ! i)) (Similarity d')"
    and "calculateQualityScore docs \<noteq> NaN" and "calculateQualityScore (docs[i := d']) \<noteq> NaN"
  shows "fle (calculateQualityScore docs) (calculateQualityScore (docs[i := d']))"
proof -
  have ne: "docs \<noteq> []" using assms(1) by auto
  have s: "weighted_sum docs \<noteq> NaN" using assms(3) ne by (simp add: calculateQualityScore_NaN)
  have s': "weighted_sum (docs[i := d']) \<noteq> NaN"
    using assms(4) ne by (simp add: calculateQualityScore_NaN)
  have n: "\<forall>d\<in>set docs. Similarity d \<noteq> NaN" using s by (rule weighted_sum_similarities)
  have "list_all2 (\<lambda>d d'. fle (Similarity d) (Similarity d')) docs (docs[i := d'])"
    unfolding list_all2_conv_all_nth
  proof (intro conjI allI impI)
    show "length docs = length (docs[i := d'])" by simp
  next
    fix j assume j: "j < length docs"
    show "fle (Similarity (docs ! j)) (Similarity (docs[i := d'] ! j))"
    proof (cases "j = i")
      case True
      then show ?thesis using assms(1,2) by simp
    next
      case False
      have "Similarity (docs ! j) \<noteq> NaN" using n j by simp
      then have "fle (Similarity (docs ! j)) (Similarity (docs ! j))" by (rule fle_refl)
      then show ?thesis using False by simp
    qed
  qed
  from clamp10_mono [OF quality_mono_all [OF this s s']] ne
  show ?thesis by (simp add: calculateQualityScore_eq)
qed

lemma calculateQualityScore_nonneg_not_NaN:
  assumes "\<forall>d\<in>set docs. nonneg (Similarity d)"
  shows "calculateQualityScore docs \<noteq> NaN"
proof (cases "docs = []")
  case True
  then show ?thesis by (simp add: calculateQualityScore_eq)
next
  case False
  then show ?thesis
    using clamp10_range [OF quality_nonneg [OF assms]] by (auto simp: calculateQualityScore_eq)
qed

lemma fadd_NaN_arg: "fadd a NaN = NaN"
  by (cases a) simp_all

lemma round_f32_uminus: "round_f32 x = Fin x \<Longrightarrow> round_f32 (- x) = Fin (- x)"
  by (simp add: round_f32_def Let_def round_real_minus split: if_splits)

lemma score_of_half: "calculateQualityScore [\<lparr>Text = ''a'', Source = ''s'', Similarity = Fin (1 / 2)\<rparr>] = Fin 5"
  by (simp add: calculateQualityScore_def fgt_def weights_def Let_def
      f32_lit_half f32_lit_10 f32_lit_5 f32_lit_0 round_f32_quarter round_f32_half round_f32_5_2
      round_f32_5)

lemma score_of_minus_half:
  "calculateQualityScore [\<lparr>Text = ''a'', Source = ''s'', Similarity = Fin (- (1 / 2))\<rparr>] = Fin (- 5)"
  using round_f32_uminus [OF round_f32_quarter] round_f32_uminus [OF round_f32_half]
    round_f32_uminus [OF round_f32_5_2] round_f32_uminus [OF round_f32_5]
  by (simp add: calculateQualityScore_def fgt_def weights_def Let_def
      f32_lit_half f32_lit_10 f32_lit_5 f32_lit_0)

lemma contribution_PInf: "Similarity d = PInf \<Longrightarrow> contribution i d = PInf"
proof -
  assume a: "Similarity d = PInf"
  obtain w where w: "positional_weight i = Fin w" "0 < w" using positional_weight_pos by blast
  show ?thesis unfolding contribution_def w(1) a using w(2) by simp
qed

lemma contribution_NInf: "Similarity d = NInf \<Longrightarrow> contribution i d = NInf"
proof -
  assume a: "Similarity d = NInf"
  obtain w where w: "positional_weight i = Fin w" "0 < w" using positional_weight_pos by blast
  show ?thesis unfolding contribution_def w(1) a using w(2) by simp
qed

text \<open>
  Similarities that are not NaNs do not keep the score from being one: with a similarity
  \<open>+Inf\<close> and a similarity \<open>-Inf\<close> the sum adds the two infinities.
\<close>

lemma score_of_both_infinities:
  "calculateQualityScore [\<lparr>Text = ''a'', Source = ''s'', Similarity = PInf\<rparr>,
                          \<lparr>Text = ''b'', Source = ''s'', Similarity = NInf\<rparr>] = NaN"
  by (simp add: calculateQualityScore_NaN weighted_sum_def contribution_PInf contribution_NInf)

text \<open>
  Claim C8 as stated (the score never decreases when one similarity is raised, for any
  documents) fails beside a document whose similarity is a NaN: raising the similarity
  of the first of the two documents from 0 to 1 leaves the score a NaN, and the
  comparison \<^verbatim>\<open><=\<close> of a NaN with a NaN is false.
\<close>

theorem qualityScore_not_monotone_beside_NaN:
  "fle (Similarity ([\<lparr>Text = ''a'', Source = ''s'', Similarity = Fin 0\<rparr>,
                     \<lparr>Text = ''b'', Source = ''s'', Similarity = NaN\<rparr>] ! 0))
       (Similarity \<lparr>Text = ''a'', Source = ''s'', Similarity = Fin 1\<rparr>)
   \<and> calculateQualityScore [\<lparr>Text = ''a'', Source = ''s'', Similarity = Fin 0\<rparr>,
                            \<lparr>Text = ''b'', Source = ''s'', Similarity = NaN\<rparr>] = NaN
   \<and> calculateQualityScore ([\<lparr>Text = ''a'', Source = ''s'', Similarity = Fin 0\<rparr>,
                             \<lparr>Text = ''b'', Source = ''s'', Similarity = NaN\<rparr>]
                            [0 := \<lparr>Text = ''a'', Source = ''s'', Similarity = Fin 1\<rparr>]) = NaN
   \<and> \<not> fle (calculateQualityScore [\<lparr>Text = ''a'', Source = ''s'', Similarity = Fin 0\<rparr>,
                                    \<lparr>Text = ''b'', Source = ''s'', Similarity = NaN\<rparr>])
            (calculateQualityScore ([\<lparr>Text = ''a'', Source = ''s'', Similarity = Fin 0\<rparr>,
                                     \<lparr>Text = ''b'', Source = ''s'', Similarity = NaN\<rparr>]
                                    [0 := \<lparr>Text = ''a'', Source = ''s'', Similarity = Fin 1\<rparr>]))"
proof -
  have a: "calculateQualityScore [\<lparr>Text = ''a'', Source = ''s'', Similarity = Fin 0\<rparr>,
                                  \<lparr>Text = ''b'', Source = ''s'', Similarity = NaN\<rparr>] = NaN"
    by (simp add: calculateQualityScore_NaN weighted_sum_def contribution_def fadd_NaN_arg)
  have b: "calculateQualityScore [\<lparr>Text = ''a'', Source = ''s'', Similarity = Fin 1\<rparr>,
                                  \<lparr>Text = ''b'', Source = ''s'', Similarity = NaN\<rparr>] = NaN"
    by (simp add: calculateQualityScore_NaN weighted_sum_def contribution_def fadd_NaN_arg)
  show ?thesis by (simp add: a b)
qed

text \<open>
  Claim C8, as amended. The score of the empty list is 0; for every list of documents
  whose similarities lie in \<open>[0, 1]\<close> the score lies in \<open>[0, 10]\<close>; the score does not
  decrease when the similarity of one document is raised while the other documents stay
  as they are, whatever the similarities, as long as neither of the two scores is a NaN;
  and the score is not a NaN when no similarity is negative or a NaN.
\<close>

theorem calculateQualityScore_range_monotone:
  "calculateQualityScore [] = Fin 0
   \<and> ((\<forall>d\<in>set docs. unit_similarity d) \<longrightarrow>
        (\<exists>r. calculateQualityScore docs = Fin r \<and> 0 \<le> r \<and> r \<le> 10))
   \<and> (i < length docs \<and> fle (Similarity (docs ! i)) (Similarity d')
        \<and> calculateQualityScore docs \<noteq> NaN \<and> calculateQualityScore (docs[i := d']) \<noteq> NaN \<longrightarrow>
        fle (calculateQualityScore docs) (calculateQualityScore (docs[i := d'])))
   \<and> ((\<forall>d\<in>set docs. nonneg (Similarity d)) \<longrightarrow> calculateQualityScore docs \<noteq> NaN)"
proof (intro conjI impI)
  show "calculateQualityScore [] = Fin 0" by (simp add: calculateQualityScore_eq)
next
  assume u: "\<forall>d\<in>set docs. unit_similarity d"
  then have n: "\<forall>d\<in>set docs. nonneg (Similarity d)" by (simp add: unit_similarity_nonneg)
  show "\<exists>r. calculateQualityScore docs = Fin r \<and> 0 \<le> r \<and> r \<le> 10"
  proof (cases "docs = []")
    case True
    then show ?thesis by (simp add: calculateQualityScore_eq)
  next
    case False
    then show ?thesis
      using clamp10_range [OF quality_nonneg [OF n]] by (simp add: calculateQualityScore_eq)
  qed
next
  assume a: "i < length docs \<and> fle (Similarity (docs ! i)) (Similarity d')
        \<and> calculateQualityScore docs \<noteq> NaN \<and> calculateQualityScore (docs[i := d']) \<noteq> NaN"
  then show "fle (calculateQualityScore docs) (calculateQualityScore (docs[i := d']))"
    using calculateQualityScore_mono_all [of i docs d'] by blast
next
  assume "\<forall>d\<in>set docs. nonneg (Similarity d)"
  then show "calculateQualityScore docs \<noteq> NaN" by (rule calculateQualityScore_nonneg_not_NaN)
qed

theorem calculateQualityScore_range_monotone_witness:
  "unit_similarity \<lparr>Text = ''a'', Source = ''s'', Similarity = Fin (1 / 2)\<rparr>
   \<and> nonneg (Similarity \<lparr>Text = ''a'', Source = ''s'', Similarity = Fin (1 / 2)\<rparr>)
   \<and> (0::nat) < length [\<lparr>Text = ''a'', Source = ''s'', Similarity = Fin (1 / 2)\<rparr>]
   \<and> fle (Similarity ([\<lparr>Text = ''a'', Source = ''s'', Similarity = Fin (1 / 2)\<rparr>] ! 0))
          (Similarity \<lparr>Text = ''a'', Source = ''s'', Similarity = PInf\<rparr>)
   \<and> calculateQualityScore [\<lparr>Text = ''a'', Source = ''s'', Similarity = Fin (1 / 2)\<rparr>] \<noteq> NaN
   \<and> calculateQualityScore ([\<lparr>Text = ''a'', Source = ''s'', Similarity = Fin (1 / 2)\<rparr>]
        [0 := \<lparr>Text = ''a'', Source = ''s'', Similarity = PInf\<rparr>]) \<noteq> NaN
   \<and> (\<exists>r. calculateQualityScore [\<lparr>Text = ''a'', Source = ''s'', Similarity = Fin (1 / 2)\<rparr>] = Fin r
          \<and> 0 \<le> r \<and> r \<le> 10)
   \<and> fle (calculateQualityScore [\<lparr>Text = ''a'', Source = ''s'', Similarity = Fin (1 / 2)\<rparr>])
          (calculateQualityScore [\<lparr>Text = ''a'', Source = ''s'', Similarity = PInf\<rparr>])
   \<and> (0::nat) < length [\<lparr>Text = ''a'', Source = ''s'', Similarity = Fin (- (1 / 2))\<rparr>]
   \<and> fle (Similarity ([\<lparr>Text = ''a'', Source = ''s'', Similarity = Fin (- (1 / 2))\<rparr>] ! 0))
          (Similarity \<lparr>Text = ''a'', Source = ''s'', Similarity = Fin (1 / 2)\<rparr>)
   \<and> calculateQualityScore [\<lparr>Text = ''a'', Source = ''s'', Similarity = Fin (- (1 / 2))\<rparr>] \<noteq> NaN
   \<and> fle (calculateQualityScore [\<lparr>Text = ''a'', Source = ''s'', Similarity = Fin (- (1 / 2))\<rparr>])
          (calculateQualityScore [\<lparr>Text = ''a'', Source = ''s'', Similarity = Fin (1 / 2)\<rparr>])"
  using calculateQualityScore_range_monotone
    [of "[\<lparr>Text = ''a'', Source = ''s'', Similarity = Fin (1 / 2)\<rparr>]" 0
        "\<lparr>Text = ''a'', Source = ''s'', Similarity = PInf\<rparr>"]
    calculateQualityScore_range_monotone
    [of "[\<lparr>Text = ''a'', Source = ''s'', Similarity = Fin (- (1 / 2))\<rparr>]" 0
        "\<lparr>Text = ''a'', Source = ''s'', Similarity = Fin (1 / 2)\<rparr>"]
    calculateQualityScore_nonneg_not_NaN [of "[\<lparr>Text = ''a'', Source = ''s'', Similarity = PInf\<rparr>]"]
    score_of_half score_of_minus_half
  by (simp add: unit_similarity_def)

section \<open>Formatting (package \<^verbatim>\<open>fmt\<close>)\<close>

definition digit :: "nat \<Rightarrow> char" where
  "digit d = ''0123456789'' ! d"

fun digits :: "nat \<Rightarrow> string" where
  "digits n = (if n < 10 then [digit n] else digits (n div 10) @ [digit (n mod 10)])"

declare digits.simps [simp del]

text \<open>The verb \<^verbatim>\<open>%d\<close> for an \<^verbatim>\<open>int\<close>.\<close>

definition fmt_d :: "int \<Rightarrow> string" where
  "fmt_d n = (if n < 0 then ''-'' @ digits (nat (- n)) else digits (nat n))"

text \<open>
  The verb \<^verbatim>\<open>%.1f\<close> for a \<^verbatim>\<open>float32\<close>: the exact value rounded to one decimal, a tie
  going to the even digit; \<^verbatim>\<open>NaN\<close>, \<^verbatim>\<open>+Inf\<close> and \<^verbatim>\<open>-Inf\<close> for the other values.
\<close>

definition fmt_f1 :: "f32 \<Rightarrow> string" where
  "fmt_f1 a =
     (case a of
        NaN \<Rightarrow> ''NaN''
      | PInf \<Rightarrow> ''+Inf''
      | NInf \<Rightarrow> ''-Inf''
      | Fin x \<Rightarrow>
          (let t = nat (rhe (\<bar>x\<bar> * 10))
           in (if x < 0 then ''-'' else '''') @ digits (t div 10) @ ''.'' @ [digit (t mod 10)]))"

lemma rhe_numeral [simp]: "rhe (numeral n) = numeral n"
  using rhe_of_int [of "numeral n"] by simp

section \<open>The engine\<close>

subsection \<open>Helpers of the relevance report\<close>

definition getRelevanceCategory :: "f32 \<Rightarrow> string" where
  "getRelevanceCategory similarity =
     (if fge similarity (f32_lit 0.9) then ''Excellent Match''
      else if fge similarity (f32_lit 0.8) then ''Very Relevant''
      else if fge similarity (f32_lit 0.7) then ''Relevant''
      else if fge similarity (f32_lit 0.6) then ''Moderately Relevant''
      else if fge similarity (f32_lit 0.5) then ''Somewhat Relevant''
      else if fge similarity (f32_lit 0.4) then ''Low Relevance''
      else ''Poor Match'')"

definition truncateText :: "string \<Rightarrow> int \<Rightarrow> panic + string" where
  "truncateText txt maxLen =
     (if int (length txt) \<le> maxLen then Inr txt
      else case slice txt 0 (maxLen - 3) of
             Inl p \<Rightarrow> Inl p
           | Inr t \<Rightarrow> Inr (t @ ''...''))"

definition getQualityDescription :: "f32 \<Rightarrow> string" where
  "getQualityDescription score =
     (if fge score (f32_lit 9) then ''Exceptional''
      else if fge score (f32_lit 8) then ''Excellent''
      else if fge score (f32_lit 7) then ''Very Good''
      else if fge score (f32_lit 6) then ''Good''
      else if fge score (f32_lit 5) then ''Fair''
      else if fge score (f32_lit 4) then ''Below Average''
      else if fge score (f32_lit 3) then ''Poor''
      else ''Very Poor'')"

subsection \<open>Messages, collaborators and the world\<close>

record Message =
  Role :: string
  Content :: string

text \<open>
  The two interfaces. A collaborator is a table of methods over a state of its own
  (\<open>'c\<close> for the chat client, \<open>'s\<close> for the store): a method takes the state and
  returns its result with the new state. \<^verbatim>\<open>ChatCompletion\<close> returns Go's pair of a
  string and an \<^verbatim>\<open>error\<close>; \<open>None\<close> is \<^verbatim>\<open>nil\<close>.
\<close>

record ('e, 'c) OpenAIClient =
  ChatCompletion :: "string \<Rightarrow> Message list \<Rightarrow> 'c \<Rightarrow> (string \<times> 'e option) \<times> 'c"

record 's MilvusClient =
  InsertDocuments :: "string list \<Rightarrow> string list \<Rightarrow> 's \<Rightarrow> bool \<times> 's"
  SearchSimilar :: "string \<Rightarrow> int \<Rightarrow> 's \<Rightarrow> Document list \<times> 's"

record ('e, 'c, 's) RAGEngine =
  openai :: "('e, 'c) OpenAIClient"
  milvus :: "'s MilvusClient"

definition NewRAGEngine ::
  "('e, 'c) OpenAIClient \<Rightarrow> 's MilvusClient \<Rightarrow> ('e, 'c, 's) RAGEngine" where
  "NewRAGEngine oa mv = \<lparr>openai = oa, milvus = mv\<rparr>"

text \<open>
  What a call can change: the states of the two collaborators, the record of the calls
  made to them (kept in the order they were made), and the lines handed to the
  standard logger. A log line is kept as the arguments of its \<^verbatim>\<open>log.Printf\<close>, not as
  the formatted text.
\<close>

datatype call =
  ChatCompletionCall string "Message list"
| InsertDocumentsCall "string list" "string list"
| SearchSimilarCall string int

datatype 'e log_line =
  LogProcessingQuery string
| LogUsingDocuments nat
| LogAnalysisHeader
| LogDocument int f32 string
| LogSource string
| LogPreview string
| LogStatisticsHeader
| LogStatistics f32 f32 f32
| LogQualityScore f32 string
| LogGenerating string
| LogError 'e
| LogSuccess nat

record ('e, 'c, 's) world =
  chat_state :: 'c
  store_state :: 's
  calls :: "call list"
  logged :: "'e log_line list"

definition log_Printf :: "'e log_line \<Rightarrow> ('e, 'c, 's) world \<Rightarrow> ('e, 'c, 's) world" where
  "log_Printf l w = w\<lparr>logged := logged w @ [l]\<rparr>"

definition call_InsertDocuments ::
  "('e, 'c, 's) RAGEngine \<Rightarrow> string list \<Rightarrow> string list \<Rightarrow> ('e, 'c, 's) world
     \<Rightarrow> bool \<times> ('e, 'c, 's) world" where
  "call_InsertDocuments r texts sources w =
     (let (ok, s') = InsertDocuments (milvus r) texts sources (store_state w)
      in (ok, w\<lparr>store_state := s', calls := calls w @ [InsertDocumentsCall texts sources]\<rparr>))"

definition call_ChatCompletion ::
  "('e, 'c, 's) RAGEngine \<Rightarrow> string \<Rightarrow> Message list \<Rightarrow> ('e, 'c, 's) world
     \<Rightarrow> (string \<times> 'e option) \<times> ('e, 'c, 's) world" where
  "call_ChatCompletion r model messages w =
     (let (res, c') = ChatCompletion (openai r) model messages (chat_state w)
      in (res, w\<lparr>chat_state := c', calls := calls w @ [ChatCompletionCall model messages]\<rparr>))"

subsection \<open>\<^verbatim>\<open>AddDocuments\<close>\<close>

definition AddDocuments ::
  "('e, 'c, 's) RAGEngine \<Rightarrow> string list \<Rightarrow> string list \<Rightarrow> ('e, 'c, 's) world
     \<Rightarrow> bool \<times> ('e, 'c, 's) world" where
  "AddDocuments r texts sources w =
     (if length texts \<noteq> length sources then (False, w)
      else call_InsertDocuments r texts sources w)"

subsection \<open>\<^verbatim>\<open>GenerateResponse\<close>\<close>

text \<open>
  The loop of the relevance report, \<^verbatim>\<open>for i, doc := range ctx\<close>: the arguments are the
  documents still to come, the index, and \<^verbatim>\<open>totalSimilarity\<close>, \<^verbatim>\<open>maxSimilarity\<close>,
  \<^verbatim>\<open>minSimilarity\<close>; the result carries the three values and the world.
\<close>

fun report_loop ::
  "Document list \<Rightarrow> int \<Rightarrow> f32 \<Rightarrow> f32 \<Rightarrow> f32 \<Rightarrow> ('e, 'c, 's) world
     \<Rightarrow> panic + (f32 \<times> f32 \<times> f32 \<times> ('e, 'c, 's) world)" where
  "report_loop [] i totalSimilarity maxSimilarity minSimilarity w =
     Inr (totalSimilarity, maxSimilarity, minSimilarity, w)"
| "report_loop (doc # docs) i totalSimilarity maxSimilarity minSimilarity w =
     (let totalSimilarity' = fadd totalSimilarity (Similarity doc);
          maxSimilarity' = (if fgt (Similarity doc) maxSimilarity then Similarity doc
                            else maxSimilarity);
          minSimilarity' = (if flt (Similarity doc) minSimilarity then Similarity doc
                            else minSimilarity);
          percentage = fmul (Similarity doc) (f32_lit 100);
          relevance = getRelevanceCategory (Similarity doc);
          w1 = log_Printf (LogDocument (i + 1) percentage relevance) w;
          w2 = log_Printf (LogSource (Source doc)) w1
      in case truncateText (Text doc) 80 of
           Inl p \<Rightarrow> Inl p
         | Inr preview \<Rightarrow>
             report_loop docs (i + 1) totalSimilarity' maxSimilarity' minSimilarity'
               (log_Printf (LogPreview preview) w2))"

definition report ::
  "Document list \<Rightarrow> ('e, 'c, 's) world \<Rightarrow> panic + ('e, 'c, 's) world" where
  "report ctx w =
     (if length ctx > 0 then
        (case report_loop ctx 0 (Fin 0) (Similarity (ctx ! 0)) (Similarity (ctx ! 0))
                (log_Printf LogAnalysisHeader w) of
           Inl p \<Rightarrow> Inl p
         | Inr (totalSimilarity, maxSimilarity, minSimilarity, w1) \<Rightarrow>
             (let avgSimilarity = fdiv totalSimilarity (round_f32 (real (length ctx)));
                  w2 = log_Printf LogStatisticsHeader w1;
                  w3 = log_Printf (LogStatistics (fmul avgSimilarity (f32_lit 100))
                                     (fmul maxSimilarity (f32_lit 100))
                                     (fmul minSimilarity (f32_lit 100))) w2;
                  qualityScore = calculateQualityScore ctx
              in Inr (log_Printf (LogQualityScore qualityScore
                                    (getQualityDescription qualityScore)) w3)))
      else Inr w)"

text \<open>
  \<^verbatim>\<open>fmt.Sprintf("Source %d (%.1f%% relevant): %s\n", i, pct, src)\<close>.
\<close>

definition Sprintf_Source :: "int \<Rightarrow> f32 \<Rightarrow> string \<Rightarrow> string" where
  "Sprintf_Source i pct src =
     ''Source '' @ fmt_d i @ '' ('' @ fmt_f1 pct @ ''% relevant): '' @ src @ [CHR 0x0A]"

text \<open>The loop that fills \<^verbatim>\<open>contextBuilder\<close>; \<open>b\<close> is what the builder holds.\<close>

fun context_loop :: "Document list \<Rightarrow> int \<Rightarrow> string \<Rightarrow> string" where
  "context_loop [] i b = b"
| "context_loop (doc # docs) i b =
     context_loop docs (i + 1)
       (b @ Sprintf_Source (i + 1) (fmul (Similarity doc) (f32_lit 100)) (Source doc)
          @ ''Content: '' @ Text doc @ [CHR 0x0A, CHR 0x0A])"

definition fallback_sentence :: string where
  "fallback_sentence =
     ''I don'' @ [CHR 0x27] @ ''t have enough information to answer that question based on the provided context.''"

definition build_prompt :: "string \<Rightarrow> Document list \<Rightarrow> string" where
  "build_prompt query ctx =
     (let context = TrimSpace (context_loop ctx 0 [])
      in ''You are a helpful assistant that answers questions based on the provided context.''
           @ [CHR 0x0A]
         @ ''Use the context below to answer the user'' @ [CHR 0x27]
           @ ''s question. If the answer cannot be found in the context,'' @ [CHR 0x0A]
         @ ''say '' @ [CHR 0x22] @ fallback_sentence @ [CHR 0x22] @ [CHR 0x0A, CHR 0x0A]
         @ ''Context:'' @ [CHR 0x0A] @ context @ [CHR 0x0A, CHR 0x0A] @ ''Question: '' @ query
         @ [CHR 0x0A, CHR 0x0A] @ ''Answer:'')"

definition build_messages :: "string \<Rightarrow> Document list \<Rightarrow> Message list" where
  "build_messages query ctx =
     [\<lparr>Role = ''system'',
       Content = ''You are a helpful assistant that answers questions based on provided context.''\<rparr>,
      \<lparr>Role = ''user'', Content = build_prompt query ctx\<rparr>]"

definition GenerateResponse ::
  "('e, 'c, 's) RAGEngine \<Rightarrow> string \<Rightarrow> Document list \<Rightarrow> string \<Rightarrow> ('e, 'c, 's) world
     \<Rightarrow> panic + ((string \<times> 'e option) \<times> ('e, 'c, 's) world)" where
  "GenerateResponse r query ctx model w =
     (let w1 = log_Printf (LogProcessingQuery query) w;
          w2 = log_Printf (LogUsingDocuments (length ctx)) w1
      in case report ctx w2 of
           Inl p \<Rightarrow> Inl p
         | Inr w3 \<Rightarrow>
             (let messages = build_messages query ctx;
                  w4 = log_Printf (LogGenerating model) w3;
                  ((response, err), w5) = call_ChatCompletion r model messages w4
              in case err of
                   Some e \<Rightarrow> Inr (('''', Some e), log_Printf (LogError e) w5)
                 | None \<Rightarrow> Inr ((response, None), log_Printf (LogSuccess (length response)) w5)))"

subsection \<open>The stubs of the test file\<close>

text \<open>
  \<^verbatim>\<open>dummyOpenAI\<close> and \<^verbatim>\<open>dummyMilvus\<close> of the tests: each records the arguments of the last
  call in its fields (the state) and returns a fixed answer.
\<close>

definition dummyOpenAI :: "('e, string \<times> Message list) OpenAIClient" where
  "dummyOpenAI =
     \<lparr>ChatCompletion = (\<lambda>model messages (lastModel, lastMessages).
        ((''stubbed'', None), (model, messages)))\<rparr>"

definition dummyMilvus :: "(string list \<times> string list \<times> string \<times> int) MilvusClient" where
  "dummyMilvus =
     \<lparr>InsertDocuments = (\<lambda>texts sources (insertedTexts, insertedSources, lastQuery, lastLimit).
        (True, (texts, sources, lastQuery, lastLimit))),
      SearchSimilar = (\<lambda>query limit (insertedTexts, insertedSources, lastQuery, lastLimit).
        ([], (insertedTexts, insertedSources, query, limit)))\<rparr>"

section \<open>Properties of the engine\<close>

lemma truncateText_80:
  "truncateText t 80 = Inr (if length t \<le> 80 then t else take 77 t @ ''...'')"
  by (simp add: truncateText_def slice_def)

lemma report_loop_frame:
  "\<exists>tot mx mn w'. report_loop docs i t a b w = Inr (tot, mx, mn, w')
     \<and> chat_state w' = chat_state w \<and> store_state w' = store_state w \<and> calls w' = calls w"
proof (induction docs arbitrary: i t a b w)
  case Nil
  show ?case by simp
next
  case (Cons d docs)
  let ?t = "fadd t (Similarity d)"
  let ?a = "if fgt (Similarity d) a then Similarity d else a"
  let ?b = "if flt (Similarity d) b then Similarity d else b"
  let ?w = "log_Printf (LogPreview (if length (Text d) \<le> 80 then Text d else take 77 (Text d) @ ''...''))
              (log_Printf (LogSource (Source d))
                (log_Printf (LogDocument (i + 1) (fmul (Similarity d) (f32_lit 100))
                               (getRelevanceCategory (Similarity d))) w))"
  have step: "report_loop (d # docs) i t a b w = report_loop docs (i + 1) ?t ?a ?b ?w"
    by (simp add: truncateText_80 Let_def del: One_nat_def)
  have frame: "chat_state ?w = chat_state w" "store_state ?w = store_state w" "calls ?w = calls w"
    by (simp_all add: log_Printf_def)
  from Cons [of "i + 1" ?t ?a ?b ?w] show ?case
    unfolding step frame .
qed

lemma report_frame:
  "\<exists>w'. report ctx w = Inr w'
     \<and> chat_state w' = chat_state w \<and> store_state w' = store_state w \<and> calls w' = calls w"
proof (cases "length ctx > 0")
  case False
  then show ?thesis by (simp add: report_def)
next
  case True
  obtain tot mx mn w1 where
    "report_loop ctx 0 (Fin 0) (Similarity (ctx ! 0)) (Similarity (ctx ! 0))
       (log_Printf LogAnalysisHeader w) = Inr (tot, mx, mn, w1)"
    and "chat_state w1 = chat_state w" "store_state w1 = store_state w" "calls w1 = calls w"
    using report_loop_frame
      [of ctx 0 "Fin 0" "Similarity (ctx ! 0)" "Similarity (ctx ! 0)" "log_Printf LogAnalysisHeader w"]
    by (auto simp: log_Printf_def)
  with True show ?thesis by (simp add: report_def Let_def log_Printf_def)
qed

lemma GenerateResponse_eq:
  fixes r :: "('e, 'c, 's) RAGEngine" and w :: "('e, 'c, 's) world"
  shows "\<exists>w'. GenerateResponse r query ctx model w =
           Inr ((case snd (fst (ChatCompletion (openai r) model (build_messages query ctx) (chat_state w))) of
                   None \<Rightarrow> (fst (fst (ChatCompletion (openai r) model (build_messages query ctx) (chat_state w))), None)
                 | Some e \<Rightarrow> ('''', Some e)), w')
         \<and> calls w' = calls w @ [ChatCompletionCall model (build_messages query ctx)]
         \<and> chat_state w' = snd (ChatCompletion (openai r) model (build_messages query ctx) (chat_state w))
         \<and> store_state w' = store_state w"
proof -
  let ?w2 = "log_Printf (LogUsingDocuments (length ctx)) (log_Printf (LogProcessingQuery query) w)"
  obtain w3 where w3: "report ctx ?w2 = Inr w3" "chat_state w3 = chat_state w"
    "store_state w3 = store_state w" "calls w3 = calls w"
    using report_frame [of ctx ?w2] by (auto simp: log_Printf_def)
  obtain response err c' where
    cc: "ChatCompletion (openai r) model (build_messages query ctx) (chat_state w) = ((response, err), c')"
    by (metis surj_pair)
  let ?w4 = "log_Printf (LogGenerating model) w3"
  let ?w5 = "?w4\<lparr>chat_state := c',
               calls := calls w @ [ChatCompletionCall model (build_messages query ctx)]\<rparr>"
  have frame: "chat_state ?w4 = chat_state w" "store_state ?w4 = store_state w" "calls ?w4 = calls w"
    using w3 by (simp_all add: log_Printf_def)
  have call: "call_ChatCompletion r model (build_messages query ctx) ?w4 = ((response, err), ?w5)"
    by (simp add: call_ChatCompletion_def frame cc)
  have "GenerateResponse r query ctx model w =
      (case err of
         Some e \<Rightarrow> Inr (([], Some e), log_Printf (LogError e) ?w5)
       | None \<Rightarrow> Inr ((response, None), log_Printf (LogSuccess (length response)) ?w5))"
    by (simp add: GenerateResponse_def Let_def w3(1) call)
  then show ?thesis
    using frame by (cases err) (simp_all add: cc log_Printf_def)
qed

text \<open>
  Claim C3. When the two slices differ in length, \<^verbatim>\<open>AddDocuments\<close> returns false, makes
  no call to the store and leaves everything as it was; when they have the same
  length it calls \<^verbatim>\<open>InsertDocuments\<close> once, with the two slices, and returns what that
  call returns.
\<close>

theorem AddDocuments_length_check:
  "(length texts \<noteq> length sources \<longrightarrow> AddDocuments r texts sources w = (False, w))
   \<and> (length texts = length sources \<longrightarrow>
        AddDocuments r texts sources w =
          (fst (InsertDocuments (milvus r) texts sources (store_state w)),
           w\<lparr>store_state := snd (InsertDocuments (milvus r) texts sources (store_state w)),
             calls := calls w @ [InsertDocumentsCall texts sources]\<rparr>))"
  by (simp add: AddDocuments_def call_InsertDocuments_def Let_def split: prod.splits)

theorem AddDocuments_length_check_witness:
  "length [''doc1''] \<noteq> length [''s1'', ''s2'']
   \<and> AddDocuments (NewRAGEngine (dummyOpenAI :: (unit, string \<times> Message list) OpenAIClient) dummyMilvus)
        [''doc1''] [''s1'', ''s2'']
        \<lparr>chat_state = ('''', []), store_state = ([], [], '''', 0), calls = [], logged = []\<rparr>
       = (False, \<lparr>chat_state = ('''', []), store_state = ([], [], '''', 0), calls = [], logged = []\<rparr>)
   \<and> length [''doc1''] = length [''s1'']
   \<and> AddDocuments (NewRAGEngine (dummyOpenAI :: (unit, string \<times> Message list) OpenAIClient) dummyMilvus)
        [''doc1''] [''s1'']
        \<lparr>chat_state = ('''', []), store_state = ([], [], '''', 0), calls = [], logged = []\<rparr>
       = (True, \<lparr>chat_state = ('''', []), store_state = ([''doc1''], [''s1''], '''', 0),
                 calls = [InsertDocumentsCall [''doc1''] [''s1'']], logged = []\<rparr>)"
  using AddDocuments_length_check
      [of "[''doc1'']" "[''s1'', ''s2'']"
          "NewRAGEngine (dummyOpenAI :: (unit, string \<times> Message list) OpenAIClient) dummyMilvus"
          "\<lparr>chat_state = ('''', []), store_state = ([], [], '''', 0), calls = [], logged = []\<rparr>"]
    AddDocuments_length_check
      [of "[''doc1'']" "[''s1'']"
          "NewRAGEngine (dummyOpenAI :: (unit, string \<times> Message list) OpenAIClient) dummyMilvus"
          "\<lparr>chat_state = ('''', []), store_state = ([], [], '''', 0), calls = [], logged = []\<rparr>"]
  by (simp add: NewRAGEngine_def dummyMilvus_def)

text \<open>
  Claim C6. \<^verbatim>\<open>GenerateResponse\<close> calls the chat collaborator with the model and the
  messages; when the collaborator returns no error, it returns the collaborator's text
  and no error; when the collaborator returns an error, it returns the empty string and
  that error. With the stub that answers \<^verbatim>\<open>stubbed\<close> to everything, a call with the
  model \<^verbatim>\<open>model-x\<close> returns \<^verbatim>\<open>stubbed\<close> and no error, and the stub has recorded
  \<^verbatim>\<open>model-x\<close> as the model of its last call.
\<close>

theorem GenerateResponse_passes_result:
  fixes r :: "('e, 'c, 's) RAGEngine" and w :: "('e, 'c, 's) world"
    and mv :: "'s MilvusClient" and v :: "('e, string \<times> Message list, 's) world"
  shows
  "(\<exists>w'. GenerateResponse r query ctx model w =
           Inr ((case snd (fst (ChatCompletion (openai r) model (build_messages query ctx) (chat_state w))) of
                   None \<Rightarrow> (fst (fst (ChatCompletion (openai r) model (build_messages query ctx) (chat_state w))), None)
                 | Some e \<Rightarrow> ('''', Some e)), w')
         \<and> calls w' = calls w @ [ChatCompletionCall model (build_messages query ctx)])
   \<and> (\<exists>v'. GenerateResponse (NewRAGEngine dummyOpenAI mv) q docs ''model-x'' v
             = Inr ((''stubbed'', None), v')
           \<and> fst (chat_state v') = ''model-x''
           \<and> calls v' = calls v @ [ChatCompletionCall ''model-x'' (build_messages q docs)])"
proof
  show "\<exists>w'. GenerateResponse r query ctx model w =
           Inr ((case snd (fst (ChatCompletion (openai r) model (build_messages query ctx) (chat_state w))) of
                   None \<Rightarrow> (fst (fst (ChatCompletion (openai r) model (build_messages query ctx) (chat_state w))), None)
                 | Some e \<Rightarrow> ('''', Some e)), w')
         \<and> calls w' = calls w @ [ChatCompletionCall model (build_messages query ctx)]"
    using GenerateResponse_eq [of r query ctx model w] by blast
next
  show "\<exists>v'. GenerateResponse (NewRAGEngine dummyOpenAI mv) q docs ''model-x'' v
             = Inr ((''stubbed'', None), v')
           \<and> fst (chat_state v') = ''model-x''
           \<and> calls v' = calls v @ [ChatCompletionCall ''model-x'' (build_messages q docs)]"
    using GenerateResponse_eq [of "NewRAGEngine dummyOpenAI mv" q docs "''model-x''" v]
    by (auto simp: NewRAGEngine_def dummyOpenAI_def split: prod.splits)
qed

text \<open>
  Claim C10. A call of \<^verbatim>\<open>AddDocuments\<close> makes no call or the one call
  \<^verbatim>\<open>InsertDocuments\<close>, and leaves the chat collaborator alone; a call of
  \<^verbatim>\<open>GenerateResponse\<close> makes exactly the one call \<^verbatim>\<open>ChatCompletion\<close> and leaves the
  store alone. The engine is the pair of its two collaborators and nothing else;
  neither function returns a changed engine.
\<close>

theorem one_collaborator_per_call:
  fixes r :: "('e, 'c, 's) RAGEngine" and w :: "('e, 'c, 's) world"
  shows
  "(calls (snd (AddDocuments r texts sources w)) = calls w
      \<or> calls (snd (AddDocuments r texts sources w)) = calls w @ [InsertDocumentsCall texts sources])
   \<and> chat_state (snd (AddDocuments r texts sources w)) = chat_state w
   \<and> logged (snd (AddDocuments r texts sources w)) = logged w
   \<and> (\<exists>res w'. GenerateResponse r query ctx model w = Inr (res, w')
         \<and> calls w' = calls w @ [ChatCompletionCall model (build_messages query ctx)]
         \<and> store_state w' = store_state w)"
proof (intro conjI)
  show "calls (snd (AddDocuments r texts sources w)) = calls w
      \<or> calls (snd (AddDocuments r texts sources w)) = calls w @ [InsertDocumentsCall texts sources]"
    by (simp add: AddDocuments_def call_InsertDocuments_def Let_def split: prod.splits)
  show "chat_state (snd (AddDocuments r texts sources w)) = chat_state w"
    by (simp add: AddDocuments_def call_InsertDocuments_def Let_def split: prod.splits)
  show "logged (snd (AddDocuments r texts sources w)) = logged w"
    by (simp add: AddDocuments_def call_InsertDocuments_def Let_def split: prod.splits)
  show "\<exists>res w'. GenerateResponse r query ctx model w = Inr (res, w')
         \<and> calls w' = calls w @ [ChatCompletionCall model (build_messages query ctx)]
         \<and> store_state w' = store_state w"
    using GenerateResponse_eq [of r query ctx model w] by blast
qed

section \<open>Trimming keeps what stands before an ASCII character that is not white space\<close>

lemma ascii_nonspace_not_IsSpace:
  "b < RuneSelf \<Longrightarrow> \<not> asciiSpace b \<Longrightarrow> \<not> IsSpace b"
  by (auto simp: RuneSelf_def asciiSpace_def IsSpace_def)

lemma DecodeLastRuneInString_ascii:
  "s \<noteq> [] \<Longrightarrow> byte (last s) < RuneSelf \<Longrightarrow> DecodeLastRuneInString s = (byte (last s), 1)"
  by (simp add: DecodeLastRuneInString_def Let_def)

lemma first_info_lo:
  "first_info b = Some (sz, lo, hi) \<Longrightarrow> 0x80 \<le> lo \<and> 0xC2 \<le> b"
  by (simp add: first_info_def split: if_splits)

lemma DecodeRuneInString_multibyte:
  assumes "DecodeRuneInString t = (r, n)" and "2 \<le> n" and "j < n"
  shows "RuneSelf \<le> byte (t ! j)"
proof (cases "first_info (byte (t ! 0))")
  case None
  with assms show ?thesis by (simp add: DecodeRuneInString_def Let_def split: if_splits)
next
  case (Some q)
  obtain sz lo hi where q: "q = (sz, lo, hi)" by (cases q)
  from Some q have lo: "0x80 \<le> lo" "0xC2 \<le> byte (t ! 0)" "2 \<le> sz" "sz \<le> 4"
    using first_info_lo first_info_size by blast+
  have j: "j = 0 \<or> j = 1 \<or> j = 2 \<or> j = 3"
    using assms lo by (auto simp: DecodeRuneInString_def Some q Let_def split: if_splits)
  from assms lo j show ?thesis
    unfolding DecodeRuneInString_def
    by (auto simp: Some q Let_def RuneSelf_def is_cont_def split: if_splits)
qed

text \<open>A rune of several bytes that ends a string consists of bytes outside ASCII.\<close>

lemma DecodeLastRuneInString_multibyte:
  assumes "DecodeLastRuneInString s = (r, n)" and "2 \<le> n" and "j < n"
  shows "RuneSelf \<le> byte (s ! (length s - n + j))"
proof -
  have ne: "s \<noteq> []" using assms by (auto simp: DecodeLastRuneInString_def)
  have na: "\<not> byte (last s) < RuneSelf"
    using assms ne by (auto simp: DecodeLastRuneInString_def Let_def)
  let ?start = "last_rune_start s"
  from DecodeLastRuneInString_nonascii [OF ne na] assms
  have d: "DecodeRuneInString (drop (nat ?start) s) = (r, n)"
    by (auto split: if_splits)
  from DecodeLastRuneInString_nonascii [OF ne na] assms
  have ok: "?start + int n = int (length s)"
    unfolding d by (auto split: if_splits)
  have s0: "0 \<le> ?start" using last_rune_start_bounds by simp
  have "RuneSelf \<le> byte (drop (nat ?start) s ! j)"
    using DecodeRuneInString_multibyte [OF d] assms by simp
  moreover have "nat ?start = length s - n" using ok s0 by linarith
  moreover have "length s - n + j < length s" using ok s0 assms by linarith
  ultimately show ?thesis by simp
qed

lemma DecodeLastRuneInString_after_ascii:
  assumes "byte c < RuneSelf" and "R \<noteq> []"
  shows "snd (DecodeLastRuneInString (A @ [c] @ R)) \<le> length R"
proof (rule ccontr)
  let ?s = "A @ [c] @ R"
  obtain r n where d: "DecodeLastRuneInString ?s = (r, n)" by (cases "DecodeLastRuneInString ?s")
  assume "\<not> snd (DecodeLastRuneInString ?s) \<le> length R"
  then have n: "length R < n" using d by simp
  then have n2: "2 \<le> n" using assms(2) by (cases R) auto
  have nl: "n \<le> length ?s" using DecodeLastRuneInString_size [of ?s] d by simp
  define j where "j = n - length R - 1"
  have j: "j < n" using n by (simp add: j_def)
  have idx: "length ?s - n + j = length A" using n nl by (simp add: j_def)
  from DecodeLastRuneInString_multibyte [OF d n2 j] have "RuneSelf \<le> byte (?s ! length A)"
    unfolding idx .
  then show False using assms(1) by simp
qed

lemma take_past_anchor:
  "length A + 1 \<le> m \<Longrightarrow> take m (A @ [c] @ R) = A @ [c] @ take (m - length A - 1) R"
  by (cases "m - length A") auto

lemma lastIndexFunc_anchor:
  assumes c: "byte c < RuneSelf" "\<not> asciiSpace (byte c)"
  shows "int (length A) \<le> lastIndexFunc (A @ [c] @ R) IsSpace
         \<and> lastIndexFunc (A @ [c] @ R) IsSpace < int (length (A @ [c] @ R))"
proof (induction "length R" arbitrary: R rule: less_induct)
  case less
  let ?s = "A @ [c] @ R"
  let ?D = "DecodeLastRuneInString ?s"
  have ne: "?s \<noteq> []" by simp
  have sz: "1 \<le> snd ?D" "snd ?D \<le> length ?s"
    using DecodeLastRuneInString_size [OF ne] by simp_all
  show ?case
  proof (cases "R = []")
    case True
    then have "?D = (byte c, 1)" using c(1) by (simp add: DecodeLastRuneInString_ascii)
    then show ?thesis
      using True ascii_nonspace_not_IsSpace [OF c]
      by (subst (1 2) lastIndexFunc.simps) simp
  next
    case False
    have szR: "snd ?D \<le> length R" using DecodeLastRuneInString_after_ascii [OF c(1) False] .
    show ?thesis
    proof (cases "IsSpace (fst ?D)")
      case nsp: False
      have "lastIndexFunc ?s IsSpace = int (length ?s - snd ?D)"
        using nsp by (subst lastIndexFunc.simps) simp
      then show ?thesis using sz szR by simp
    next
      case sp: True
      let ?R' = "take (length R - snd ?D) R"
      have "length A + 1 \<le> length ?s - snd ?D"
        and "length ?s - snd ?D - length A - 1 = length R - snd ?D"
        using szR by simp_all
      then have tk: "take (length ?s - snd ?D) ?s = A @ [c] @ ?R'"
        using take_past_anchor [of A "length ?s - snd ?D" c R] by simp
      have "lastIndexFunc ?s IsSpace = lastIndexFunc (A @ [c] @ ?R') IsSpace"
        using sp by (subst lastIndexFunc.simps) (simp only: ne tk if_False if_True not_not simp_thms)
      moreover have "length ?R' < length R" using sz(1) False by (cases R) auto
      ultimately show ?thesis using less [of ?R'] by simp
    qed
  qed
qed

lemma TrimRightFunc_anchor:
  assumes c: "byte c < RuneSelf" "\<not> asciiSpace (byte c)"
  shows "\<exists>R'. prefix R' R \<and> TrimRightFunc (A @ [c] @ R) IsSpace = A @ [c] @ R'"
proof -
  let ?s = "A @ [c] @ R"
  let ?i = "lastIndexFunc ?s IsSpace"
  have i: "int (length A) \<le> ?i" "?i < int (length ?s)"
    using lastIndexFunc_anchor [OF c, of A R] by simp_all
  define k where "k = nat ?i"
  have k: "length A \<le> k" "k < length ?s" "?i = int k" using i by (simp_all add: k_def)
  define w where "w = snd (DecodeRuneInString (drop k ?s))"
  have "drop k ?s \<noteq> []" using k by simp
  from DecodeRuneInString_size [OF this] have "1 \<le> w \<and> w \<le> length (drop k ?s)"
    unfolding w_def .
  then have w: "1 \<le> w" "w \<le> length ?s - k"
    by (simp_all only: length_drop)
  define m where "m = (if byte (?s ! k) \<ge> RuneSelf then k + w else k + 1)"
  have m: "length A + 1 \<le> m" "m \<le> length ?s"
    using k w by (auto simp: m_def)
  have "TrimRightFunc ?s IsSpace = take m ?s"
    unfolding TrimRightFunc_def Let_def k(3) m_def w_def by (simp add: nat_add_distrib)
  also have "\<dots> = A @ [c] @ take (m - length A - 1) R"
    using m(1) by (rule take_past_anchor)
  finally show ?thesis by (metis take_is_prefix)
qed

lemma TrimSpace_stop_anchor:
  assumes c: "byte c < RuneSelf" "\<not> asciiSpace (byte c)"
  shows "\<exists>R'. prefix R' R \<and> TrimSpace_stop (A @ [c] @ R) = A @ [c] @ R'"
proof (induction R rule: rev_induct)
  case Nil
  show ?case using c by (subst TrimSpace_stop.simps) (simp add: not_le)
next
  case (snoc x R)
  let ?s = "A @ [c] @ R @ [x]"
  show ?case
  proof (cases "byte x \<ge> RuneSelf")
    case True
    then have "TrimSpace_stop ?s = TrimRightFunc ?s IsSpace"
      by (subst TrimSpace_stop.simps) simp
    then show ?thesis using TrimRightFunc_anchor [OF c, of "R @ [x]" A] by simp
  next
    case False
    show ?thesis
    proof (cases "asciiSpace (byte x)")
      case True
      have "butlast ?s = A @ [c] @ R" by (simp add: butlast_append)
      then have "TrimSpace_stop ?s = TrimSpace_stop (A @ [c] @ R)"
        using True False by (subst TrimSpace_stop.simps) simp
      then show ?thesis using snoc by (auto intro: prefix_prefix)
    next
      case nsp: False
      have "TrimSpace_stop ?s = ?s"
        using nsp False by (subst TrimSpace_stop.simps) simp
      then show ?thesis by auto
    qed
  qed
qed

lemma TrimSpace_anchor:
  assumes c: "byte c < RuneSelf" "\<not> asciiSpace (byte c)"
    and h: "byte h < RuneSelf" "\<not> asciiSpace (byte h)"
  shows "\<exists>R'. prefix R' R \<and> TrimSpace (h # A @ [c] @ R) = h # A @ [c] @ R'"
proof -
  have "TrimSpace (h # A @ [c] @ R) = TrimSpace_stop ((h # A) @ [c] @ R)"
    using h by (simp add: TrimSpace.simps not_le)
  then show ?thesis using TrimSpace_stop_anchor [OF c, of R "h # A"] by simp
qed

section \<open>Trimming on the right does not look at what stands before an ASCII character\<close>

lemma DecodeRuneInString_ascii:
  "t \<noteq> [] \<Longrightarrow> byte (hd t) < RuneSelf \<Longrightarrow> DecodeRuneInString t = (byte (hd t), 1)"
  by (cases t) (simp_all add: DecodeRuneInString_def)

lemma scan_start_ge: "k \<ge> - 1 \<Longrightarrow> 0 \<le> l \<Longrightarrow> scan_start s k l \<ge> - 1"
proof (induction s k l rule: scan_start.induct)
  case (1 s start limit)
  show ?case
  proof (cases "start \<ge> limit \<and> 0 \<le> start \<and> \<not> RuneStart (byte (s ! nat start))")
    case True
    with 1 have "scan_start s (start - 1) limit \<ge> - 1" by simp
    with True show ?thesis by (subst scan_start.simps) simp
  next
    case False
    then show ?thesis using 1(2) by (subst scan_start.simps) auto
  qed
qed

text \<open>A scan that runs below its limit has found no start of a rune at the limit.\<close>

lemma scan_start_below:
  "scan_start s k l < l \<Longrightarrow> 0 \<le> l \<Longrightarrow> l \<le> k \<Longrightarrow> \<not> RuneStart (byte (s ! nat l))"
proof (induction s k l rule: scan_start.induct)
  case (1 s start limit)
  from 1(2) have ns: "\<not> RuneStart (byte (s ! nat start))"
    using 1(3,4) by (subst (asm) scan_start.simps) (auto split: if_splits)
  show ?case
  proof (cases "start = limit")
    case True
    with ns show ?thesis by simp
  next
    case False
    have "scan_start s start limit = scan_start s (start - 1) limit"
      using ns 1(3,4) by (subst scan_start.simps) simp
    with 1 False ns show ?thesis by simp
  qed
qed

lemma scan_start_shift:
  "0 \<le> l \<Longrightarrow> scan_start (A @ V) (int (length A) + k) (int (length A) + l)
     = int (length A) + scan_start V k l"
proof (induction V k l rule: scan_start.induct)
  case (1 V start limit)
  show ?case
  proof (cases "start \<ge> limit \<and> 0 \<le> start")
    case False
    then have "start < limit" using 1(2) by auto
    then show ?thesis by (subst (1 2) scan_start.simps) simp
  next
    case True
    then have nth: "(A @ V) ! nat (int (length A) + start) = V ! nat start"
      by (simp add: nth_append nat_add_distrib)
    show ?thesis
    proof (cases "RuneStart (byte (V ! nat start))")
      case rs: True
      then show ?thesis using True nth by (subst (1 2) scan_start.simps) simp
    next
      case rs: False
      have "scan_start (A @ V) (int (length A) + start) (int (length A) + limit)
          = scan_start (A @ V) (int (length A) + (start - 1)) (int (length A) + limit)"
        using True rs nth by (subst scan_start.simps) (simp add: algebra_simps)
      also have "\<dots> = int (length A) + scan_start V (start - 1) limit"
        using 1(1) True rs 1(2) by simp
      also have "scan_start V (start - 1) limit = scan_start V start limit"
        using True rs by (subst (2) scan_start.simps) simp
      finally show ?thesis .
    qed
  qed
qed

lemma scan_start_into_prefix:
  assumes A: "A \<noteq> []" "byte (last A) < RuneSelf" and L: "L \<le> int (length A) - 1"
  shows "k \<ge> - 1 \<Longrightarrow> scan_start (A @ V) (int (length A) + k) L = int (length A) + scan_start V k 0"
proof (induction V k "0::int" rule: scan_start.induct)
  case (1 V start)
  have lastA: "RuneStart (byte (last A))"
    using A(2) by (simp add: RuneStart_def is_cont_def RuneSelf_def)
  show ?case
  proof (cases "0 \<le> start")
    case False
    with 1(2) have st: "start = - 1" by simp
    have "nat (int (length A) - 1) = length A - 1" by simp
    moreover have "length A - 1 < length A" using A(1) by (cases A) auto
    ultimately have "(A @ V) ! nat (int (length A) - 1) = last A"
      using A(1) by (simp add: nth_append last_conv_nth)
    then have "scan_start (A @ V) (int (length A) - 1) L = int (length A) - 1"
      using L A(1) lastA by (subst scan_start.simps) simp
    moreover have "scan_start V (- 1) 0 = - 1" by (subst scan_start.simps) simp
    ultimately show ?thesis using st by simp
  next
    case True
    then have nth: "(A @ V) ! nat (int (length A) + start) = V ! nat start"
      by (simp add: nth_append nat_add_distrib)
    have ge: "int (length A) + start \<ge> L" "0 \<le> int (length A) + start" using L True by simp_all
    show ?thesis
    proof (cases "RuneStart (byte (V ! nat start))")
      case rs: True
      then show ?thesis using True nth ge by (subst (1 2) scan_start.simps) simp
    next
      case rs: False
      have "scan_start (A @ V) (int (length A) + start) L
          = scan_start (A @ V) (int (length A) + (start - 1)) L"
        using ge rs nth by (subst scan_start.simps) (simp add: algebra_simps)
      also have "\<dots> = int (length A) + scan_start V (start - 1) 0"
        using 1(1) True rs by simp
      also have "scan_start V (start - 1) 0 = scan_start V start 0"
        using True rs by (subst (2) scan_start.simps) simp
      finally show ?thesis .
    qed
  qed
qed

lemma scan_start_ge_limit: "k \<ge> l - 1 \<Longrightarrow> 0 \<le> l \<Longrightarrow> scan_start s k l \<ge> l - 1"
proof (induction s k l rule: scan_start.induct)
  case (1 s start limit)
  show ?case
  proof (cases "start \<ge> limit \<and> 0 \<le> start \<and> \<not> RuneStart (byte (s ! nat start))")
    case True
    with 1 have "scan_start s (start - 1) limit \<ge> limit - 1" by simp
    with True show ?thesis by (subst scan_start.simps) simp
  next
    case False
    then show ?thesis using 1(2,3) by (subst scan_start.simps) auto
  qed
qed

lemma DecodeRuneInString_continuation:
  "t \<noteq> [] \<Longrightarrow> \<not> RuneStart (byte (t ! 0)) \<Longrightarrow> DecodeRuneInString t = (RuneError, 1)"
  by (cases t)
     (simp_all add: DecodeRuneInString_def RuneStart_def is_cont_def RuneSelf_def first_info_def)

lemma DecodeRuneInString_single:
  assumes b: "RuneSelf \<le> byte b"
  shows "DecodeRuneInString [b] = (RuneError, 1)"
proof (cases "first_info (byte b)")
  case None
  then show ?thesis using b by (simp add: DecodeRuneInString_def Let_def not_less)
next
  case (Some q)
  obtain sz lo hi where q: "q = (sz, lo, hi)" by (cases q)
  from Some q have "2 \<le> sz" using first_info_size by blast
  then show ?thesis using b by (simp add: DecodeRuneInString_def Let_def Some q not_less)
qed

lemma DecodeLastRuneInString_context:
  assumes A: "A \<noteq> []" "byte (last A) < RuneSelf" and V: "V \<noteq> []"
  shows "DecodeLastRuneInString (A @ V) = DecodeLastRuneInString V"
proof (cases "byte (last V) < RuneSelf")
  case True
  then show ?thesis using V by (simp add: DecodeLastRuneInString_ascii)
next
  case na: False
  have lenA: "1 \<le> length A" using A(1) by (cases A) auto
  have lenV: "1 \<le> length V" using V by (cases V) auto
  define limV where "limV = (if int (length V) - UTFMax < 0 then 0 else int (length V) - UTFMax)"
  define sv where "sv = scan_start V (int (length V) - 2) limV"
  have limV: "0 \<le> limV" "limV - 1 \<le> int (length V) - 2"
    using lenV by (auto simp: limV_def UTFMax_def)
  have sv_ge: "limV - 1 \<le> sv" unfolding sv_def using limV by (intro scan_start_ge_limit) simp_all
  have sV: "last_rune_start V = (if sv < 0 then 0 else sv)"
    by (simp add: last_rune_start_def Let_def limV_def sv_def)
  have scanAV: "scan_start (A @ V) (int (length (A @ V)) - 2)
        (if int (length (A @ V)) - UTFMax < 0 then 0 else int (length (A @ V)) - UTFMax)
      = int (length A) + sv"
  proof (cases "4 \<le> length V")
    case True
    then have "(if int (length (A @ V)) - UTFMax < 0 then 0 else int (length (A @ V)) - UTFMax)
        = int (length A) + limV"
      by (simp add: limV_def UTFMax_def)
    moreover have "int (length (A @ V)) - 2 = int (length A) + (int (length V) - 2)" by simp
    ultimately show ?thesis
      using scan_start_shift [of limV A V "int (length V) - 2"] limV(1) by (simp only: sv_def)
  next
    case False
    then have l0: "limV = 0" by (simp add: limV_def UTFMax_def)
    have "(if int (length (A @ V)) - UTFMax < 0 then 0 else int (length (A @ V)) - UTFMax)
        \<le> int (length A) - 1"
      using False lenA A(1) by (simp add: UTFMax_def)
    moreover have "int (length (A @ V)) - 2 = int (length A) + (int (length V) - 2)" by simp
    moreover have "int (length V) - 2 \<ge> - 1" using lenV by simp
    ultimately show ?thesis
      using scan_start_into_prefix [OF A, of _ "int (length V) - 2" V] by (simp only: sv_def l0)
  qed
  have "last_rune_start (A @ V) = (if int (length A) + sv < 0 then 0 else int (length A) + sv)"
    unfolding last_rune_start_def Let_def scanAV ..
  then have sAV: "last_rune_start (A @ V) = int (length A) + sv"
    using sv_ge limV(1) lenA by simp
  have naAV: "\<not> byte (last (A @ V)) < RuneSelf" using na V by simp
  have neAV: "A @ V \<noteq> []" using V by simp
  show ?thesis
  proof (cases "0 \<le> sv")
    case True
    then have "drop (nat (int (length A) + sv)) (A @ V) = drop (nat sv) V"
      by (simp add: nat_add_distrib)
    then show ?thesis
      using True
      by (simp add: DecodeLastRuneInString_nonascii [OF neAV naAV]
          DecodeLastRuneInString_nonascii [OF V na] sAV sV)
  next
    case False
    then have sv1: "sv = - 1" "limV = 0" using sv_ge limV(1) by simp_all
    have "drop (length A - 1) A = [last A]" using A(1) by (cases A rule: rev_cases) simp_all
    moreover have "nat (int (length A) + sv) = length A - 1" using sv1 by simp
    ultimately have "drop (nat (int (length A) + sv)) (A @ V) = last A # V"
      using lenA by (simp only: drop_append) simp
    then have dAV: "DecodeRuneInString (drop (nat (last_rune_start (A @ V))) (A @ V)) = (byte (last A), 1)"
      using A(2) by (simp add: sAV DecodeRuneInString_ascii)
    have left: "DecodeLastRuneInString (A @ V) = (RuneError, 1)"
      using DecodeLastRuneInString_nonascii [OF neAV naAV] V sv1
      unfolding dAV unfolding sAV by simp
    have dV: "DecodeRuneInString V = (RuneError, 1)"
    proof (cases "length V = 1")
      case True
      then obtain b where b: "V = [b]" by (cases V) auto
      with na have "RuneSelf \<le> byte b" by simp
      then show ?thesis unfolding b by (rule DecodeRuneInString_single)
    next
      case False
      with lenV have "0 \<le> int (length V) - 2" by simp
      moreover have "scan_start V (int (length V) - 2) limV < limV"
        using sv1 unfolding sv_def by linarith
      ultimately have "\<not> RuneStart (byte (V ! nat limV))"
        using scan_start_below [of V "int (length V) - 2" limV] sv1(2) by simp
      then show ?thesis using V sv1 by (simp add: DecodeRuneInString_continuation)
    qed
    have "drop (nat (last_rune_start V)) V = V" using sv1 by (simp add: sV)
    then have right: "DecodeLastRuneInString V = (RuneError, 1)"
      using DecodeLastRuneInString_nonascii [OF V na] by (simp add: dV)
    show ?thesis using left right by simp
  qed
qed

lemma lastIndexFunc_bounds:
  "- 1 \<le> lastIndexFunc s f \<and> lastIndexFunc s f < int (length s)"
proof (induction s f rule: lastIndexFunc.induct)
  case (1 s f)
  show ?case
  proof (cases "s = []")
    case True
    then show ?thesis by (subst (1 2) lastIndexFunc.simps) simp
  next
    case ne: False
    have sz: "1 \<le> snd (DecodeLastRuneInString s)" "snd (DecodeLastRuneInString s) \<le> length s"
      using DecodeLastRuneInString_size [OF ne] by simp_all
    show ?thesis
    proof (cases "f (fst (DecodeLastRuneInString s))")
      case False
      then have "lastIndexFunc s f = int (length s - snd (DecodeLastRuneInString s))"
        using ne by (subst lastIndexFunc.simps) simp
      then show ?thesis using sz by simp
    next
      case True
      then have "lastIndexFunc s f
          = lastIndexFunc (take (length s - snd (DecodeLastRuneInString s)) s) f"
        using ne by (subst lastIndexFunc.simps) simp
      then show ?thesis using 1 [OF ne] True sz by simp
    qed
  qed
qed

lemma lastIndexFunc_context:
  assumes A: "A \<noteq> []" "byte (last A) < RuneSelf"
  shows "0 \<le> lastIndexFunc V f \<Longrightarrow> lastIndexFunc (A @ V) f = int (length A) + lastIndexFunc V f"
proof (induction V f rule: lastIndexFunc.induct)
  case (1 V f)
  have ne: "V \<noteq> []" using 1(2) by (subst (asm) lastIndexFunc.simps) (auto split: if_splits)
  let ?D = "DecodeLastRuneInString V"
  have D: "DecodeLastRuneInString (A @ V) = ?D" using A ne by (rule DecodeLastRuneInString_context)
  have sz: "1 \<le> snd ?D" "snd ?D \<le> length V"
    using DecodeLastRuneInString_size [OF ne] by simp_all
  have neAV: "A @ V \<noteq> []" using ne by simp
  show ?case
  proof (cases "f (fst ?D)")
    case False
    have "lastIndexFunc V f = int (length V - snd ?D)"
      using False ne by (subst lastIndexFunc.simps) simp
    moreover have "lastIndexFunc (A @ V) f = int (length (A @ V) - snd ?D)"
      using False neAV by (subst lastIndexFunc.simps) (simp only: D if_False if_True simp_thms)
    ultimately show ?thesis using sz by simp
  next
    case True
    let ?V' = "take (length V - snd ?D) V"
    have v: "lastIndexFunc V f = lastIndexFunc ?V' f"
      using True ne by (subst lastIndexFunc.simps) simp
    have tk: "take (length (A @ V) - snd ?D) (A @ V) = A @ ?V'" using sz by simp
    have "lastIndexFunc (A @ V) f = lastIndexFunc (A @ ?V') f"
      using True neAV by (subst lastIndexFunc.simps) (simp only: D tk if_False if_True simp_thms)
    also have "\<dots> = int (length A) + lastIndexFunc ?V' f"
      using 1(1) [OF ne] True 1(2) v by simp
    finally show ?thesis using v by simp
  qed
qed

lemma TrimRightFunc_context:
  assumes A: "A \<noteq> []" "byte (last A) < RuneSelf" and ne: "TrimRightFunc V f \<noteq> []"
  shows "TrimRightFunc (A @ V) f = A @ TrimRightFunc V f"
proof -
  define i where "i = lastIndexFunc V f"
  have b: "- 1 \<le> i" "i < int (length V)" using lastIndexFunc_bounds [of V f] by (simp_all add: i_def)
  have i0: "0 \<le> i"
  proof (rule ccontr)
    assume "\<not> 0 \<le> i"
    with b have "i = - 1" by simp
    then have "TrimRightFunc V f = []" by (simp add: TrimRightFunc_def i_def [symmetric])
    with ne show False by simp
  qed
  define k where "k = nat i"
  have k: "i = int k" "k < length V" using i0 b by (simp_all add: k_def)
  have iA: "lastIndexFunc (A @ V) f = int (length A + k)"
    using lastIndexFunc_context [OF A, of V f] i0 k by (simp add: i_def [symmetric])
  define m where "m = (if byte (V ! k) \<ge> RuneSelf then k + snd (DecodeRuneInString (drop k V)) else k + 1)"
  have V: "TrimRightFunc V f = take m V"
    unfolding TrimRightFunc_def Let_def i_def [symmetric] k(1) m_def by (simp add: nat_add_distrib)
  have "TrimRightFunc (A @ V) f = take (length A + m) (A @ V)"
    unfolding TrimRightFunc_def Let_def iA m_def by (simp add: nat_add_distrib nth_append)
  then show ?thesis using V by simp
qed

text \<open>Bytes that follow a string and begin with an ASCII byte do not change its first rune.\<close>

lemma DecodeRuneInString_append_ascii:
  assumes t: "t \<noteq> []" and x: "byte x < RuneSelf"
  shows "DecodeRuneInString (t @ x # w) = DecodeRuneInString t"
proof -
  have len: "1 \<le> length t" using t by (cases t) auto
  have n0: "(t @ x # w) ! 0 = t ! 0" using t by (cases t) simp_all
  show ?thesis
  proof (cases "first_info (byte (t ! 0))")
    case None
    then show ?thesis using t by (simp add: DecodeRuneInString_def Let_def n0)
  next
    case (Some q)
    obtain sz lo hi where q: "q = (sz, lo, hi)" by (cases q)
    from Some q have sz: "2 \<le> sz" "sz \<le> 4" and lo: "0x80 \<le> lo"
      using first_info_size first_info_lo by blast+
    have xc: "byte x < lo" "\<not> is_cont (byte x)"
      using x lo by (simp_all add: RuneSelf_def is_cont_def)
    consider "sz \<le> length t" | "length t = 1" | "length t = 2" "sz \<ge> 3" | "length t = 3" "sz = 4"
      using len sz by linarith
    then show ?thesis
    proof cases
      case 1
      then have "(t @ x # w) ! 1 = t ! 1" "sz \<ge> 3 \<longrightarrow> (t @ x # w) ! 2 = t ! 2"
        "sz \<ge> 4 \<longrightarrow> (t @ x # w) ! 3 = t ! 3"
        using sz by (simp_all add: nth_append)
      then show ?thesis
        using 1 sz t by (auto simp: DecodeRuneInString_def Let_def n0 Some q)
    next
      case 2
      then have "(t @ x # w) ! 1 = x" by (simp add: nth_append)
      then show ?thesis
        using 2 sz xc t by (simp add: DecodeRuneInString_def Let_def n0 Some q)
    next
      case 3
      then have "(t @ x # w) ! 1 = t ! 1" "(t @ x # w) ! 2 = x" by (simp_all add: nth_append)
      then show ?thesis
        using 3 sz xc t by (simp add: DecodeRuneInString_def Let_def n0 Some q)
    next
      case 4
      then have "(t @ x # w) ! 1 = t ! 1" "(t @ x # w) ! 2 = t ! 2" "(t @ x # w) ! 3 = x"
        by (simp_all add: nth_append)
      then show ?thesis
        using 4 sz xc t by (simp add: DecodeRuneInString_def Let_def n0 Some q)
    qed
  qed
qed

lemma asciiSpace_IsSpace: "asciiSpace b \<Longrightarrow> IsSpace b \<and> b < RuneSelf"
  by (auto simp: asciiSpace_def IsSpace_def RuneSelf_def)

lemma lastIndexFunc_strip:
  assumes "asciiSpace (byte x)"
  shows "lastIndexFunc (s @ [x]) IsSpace = lastIndexFunc s IsSpace"
proof -
  have "DecodeLastRuneInString (s @ [x]) = (byte x, 1)"
    using asciiSpace_IsSpace [OF assms] by (simp add: DecodeLastRuneInString_ascii)
  then show ?thesis
    using asciiSpace_IsSpace [OF assms] by (subst lastIndexFunc.simps) simp
qed

lemma TrimRightFunc_strip:
  assumes "asciiSpace (byte x)"
  shows "TrimRightFunc (s @ [x]) IsSpace = TrimRightFunc s IsSpace"
proof -
  define i where "i = lastIndexFunc s IsSpace"
  have b: "- 1 \<le> i" "i < int (length s)"
    using lastIndexFunc_bounds [of s IsSpace] by (simp_all add: i_def)
  have ix: "lastIndexFunc (s @ [x]) IsSpace = i"
    using lastIndexFunc_strip [OF assms] by (simp add: i_def)
  show ?thesis
  proof (cases "0 \<le> i")
    case False
    with b have "i = - 1" by simp
    then show ?thesis by (simp add: TrimRightFunc_def ix i_def [symmetric])
  next
    case True
    define k where "k = nat i"
    have k: "i = int k" "k < length s" using True b by (simp_all add: k_def)
    have dne: "drop k s \<noteq> []" using k by simp
    have d: "DecodeRuneInString (drop k (s @ [x])) = DecodeRuneInString (drop k s)"
      using DecodeRuneInString_append_ascii [OF dne, of x "[]"] asciiSpace_IsSpace [OF assms] k
      by simp
    define m where "m = (if byte (s ! k) \<ge> RuneSelf then k + snd (DecodeRuneInString (drop k s)) else k + 1)"
    have "snd (DecodeRuneInString (drop k s)) \<le> length (drop k s)"
      using DecodeRuneInString_size [OF dne] by simp
    then have m: "m \<le> length s" using k by (auto simp: m_def)
    have "TrimRightFunc s IsSpace = take m s"
      unfolding TrimRightFunc_def Let_def i_def [symmetric] k(1) m_def by (simp add: nat_add_distrib)
    moreover have "TrimRightFunc (s @ [x]) IsSpace = take m (s @ [x])"
      unfolding TrimRightFunc_def Let_def ix k(1) using k(2)
      by (simp add: nat_add_distrib nth_append d m_def del: drop_append)
    ultimately show ?thesis using m by simp
  qed
qed

lemma TrimSpace_stop_eq: "TrimSpace_stop s = TrimRightFunc s IsSpace"
proof (induction s rule: rev_induct)
  case Nil
  show ?case
    by (subst TrimSpace_stop.simps, subst TrimRightFunc_def, subst lastIndexFunc.simps) simp
next
  case (snoc x s)
  show ?case
  proof (cases "byte x \<ge> RuneSelf")
    case True
    then show ?thesis by (subst TrimSpace_stop.simps) simp
  next
    case asc: False
    show ?thesis
    proof (cases "asciiSpace (byte x)")
      case True
      then have "TrimSpace_stop (s @ [x]) = TrimSpace_stop s"
        using asc by (subst TrimSpace_stop.simps) simp
      then show ?thesis using snoc TrimRightFunc_strip [OF True] by simp
    next
      case False
      have l: "TrimSpace_stop (s @ [x]) = s @ [x]"
        using asc False by (subst TrimSpace_stop.simps) simp
      have x: "byte x < RuneSelf" using asc by simp
      have "DecodeLastRuneInString (s @ [x]) = (byte x, 1)"
        using x by (simp add: DecodeLastRuneInString_ascii)
      then have "lastIndexFunc (s @ [x]) IsSpace = int (length s)"
        using ascii_nonspace_not_IsSpace [OF x False] by (subst lastIndexFunc.simps) simp
      then have "TrimRightFunc (s @ [x]) IsSpace = s @ [x]"
        using x by (simp add: TrimRightFunc_def)
      with l show ?thesis by simp
    qed
  qed
qed

section \<open>Properties of the prompt\<close>

text \<open>What one pass of the loop appends to the builder.\<close>

definition doc_block :: "int \<Rightarrow> Document \<Rightarrow> string" where
  "doc_block i doc =
     Sprintf_Source (i + 1) (fmul (Similarity doc) (f32_lit 100)) (Source doc)
       @ ''Content: '' @ Text doc @ [CHR 0x0A, CHR 0x0A]"

lemma context_loop_acc: "context_loop docs i b = b @ context_loop docs i []"
proof (induction docs arbitrary: i b)
  case Nil
  show ?case by simp
next
  case (Cons d docs)
  have "context_loop (d # docs) i b = context_loop docs (i + 1) (b @ doc_block i d)"
    and "context_loop (d # docs) i [] = context_loop docs (i + 1) (doc_block i d)"
    unfolding doc_block_def by simp_all
  then show ?case
    using Cons [of "i + 1" "b @ doc_block i d"] Cons [of "i + 1" "doc_block i d"]
    by simp
qed

lemma context_loop_Cons: "context_loop (d # docs) i [] = doc_block i d @ context_loop docs (i + 1) []"
proof -
  have "context_loop (d # docs) i [] = context_loop docs (i + 1) (doc_block i d)"
    unfolding doc_block_def by simp
  then show ?thesis using context_loop_acc [of docs "i + 1" "doc_block i d"] by simp
qed

lemma sublist_in_context: "sublist xs ys \<Longrightarrow> sublist xs (ps @ ys @ ss)"
proof -
  assume "sublist xs ys"
  then obtain p s where "ys = p @ xs @ s" by (auto simp: sublist_def)
  then have "ps @ ys @ ss = (ps @ p) @ xs @ (s @ ss)" by simp
  then show ?thesis by (metis sublist_appendI)
qed

lemma sublist_in_left: "sublist xs ys \<Longrightarrow> sublist xs (ys @ ss)"
  using sublist_in_context [of xs ys "[]" ss] by simp

lemma sublist_in_right: "sublist xs ys \<Longrightarrow> sublist xs (ps @ ys)"
  using sublist_in_context [of xs ys ps "[]"] by simp

lemma context_loop_snoc:
  "context_loop (docs @ [d]) i [] = context_loop docs i [] @ doc_block (i + int (length docs)) d"
proof (induction docs arbitrary: i)
  case Nil
  show ?case by (simp add: doc_block_def)
next
  case (Cons e docs)
  have "context_loop ((e # docs) @ [d]) i [] = doc_block i e @ context_loop (docs @ [d]) (i + 1) []"
    by (simp only: append_Cons context_loop_Cons)
  also have "\<dots> = doc_block i e @ context_loop docs (i + 1) []
                 @ doc_block (i + 1 + int (length docs)) d"
    by (simp only: Cons)
  also have "\<dots> = context_loop (e # docs) i [] @ doc_block (i + int (length (e # docs))) d"
    by (simp only: context_loop_Cons append_assoc) (simp add: add.assoc)
  finally show ?case .
qed

lemma doc_block_head: "\<exists>rest. doc_block i d = CHR ''S'' # rest"
  by (simp add: doc_block_def Sprintf_Source_def)

lemma context_loop_contains:
  "d \<in> set docs \<Longrightarrow> sublist (Text d) (context_loop docs i [])"
proof (induction docs arbitrary: i)
  case Nil
  then show ?case by simp
next
  case (Cons e docs)
  show ?case
  proof (cases "d = e")
    case True
    have "doc_block i e = (Sprintf_Source (i + 1) (fmul (Similarity e) (f32_lit 100)) (Source e)
       @ ''Content: '') @ Text e @ [CHR 0x0A, CHR 0x0A]" by (simp add: doc_block_def)
    then have "sublist (Text e) (doc_block i e)" by (metis sublist_appendI)
    then show ?thesis unfolding context_loop_Cons True by (rule sublist_in_left)
  next
    case False
    with Cons.prems have "d \<in> set docs" by simp
    from Cons.IH [OF this] show ?thesis
      unfolding context_loop_Cons by (rule sublist_in_right)
  qed
qed

lemma context_head:
  "\<exists>A. context_loop ds i [] @ Sprintf_Source j p src = CHR ''S'' # A"
proof (cases ds)
  case Nil
  then show ?thesis by (simp add: Sprintf_Source_def)
next
  case (Cons e es)
  obtain rest where "doc_block i e = CHR ''S'' # rest" using doc_block_head by blast
  then show ?thesis unfolding Cons context_loop_Cons by simp
qed

lemma TrimSpace_context_keeps_label:
  "\<exists>R'. TrimSpace (context_loop (ds @ [d]) 0 []) =
          context_loop ds 0 []
            @ Sprintf_Source (int (length ds) + 1) (fmul (Similarity d) (f32_lit 100)) (Source d)
            @ ''Content:'' @ R'"
proof -
  let ?X = "context_loop ds 0 []
            @ Sprintf_Source (int (length ds) + 1) (fmul (Similarity d) (f32_lit 100)) (Source d)"
  obtain A where A: "?X = CHR ''S'' # A" using context_head by blast
  have B: "context_loop (ds @ [d]) 0 [] =
             CHR ''S'' # (A @ ''Content'') @ [CHR '':''] @ ('' '' @ Text d @ [CHR 0x0A, CHR 0x0A])"
    unfolding context_loop_snoc doc_block_def using A by simp
  have c: "byte CHR '':'' < RuneSelf" "\<not> asciiSpace (byte CHR '':'')"
    and h: "byte CHR ''S'' < RuneSelf" "\<not> asciiSpace (byte CHR ''S'')"
    by (simp_all add: byte_def RuneSelf_def asciiSpace_def)
  from TrimSpace_anchor [OF c h, of "'' '' @ Text d @ [CHR 0x0A, CHR 0x0A]" "A @ ''Content''"]
  obtain R' where "TrimSpace (context_loop (ds @ [d]) 0 []) = CHR ''S'' # (A @ ''Content'') @ [CHR '':''] @ R'"
    unfolding B by blast
  then have "TrimSpace (context_loop (ds @ [d]) 0 []) = ?X @ ''Content:'' @ R'"
    using A by simp
  then show ?thesis by (metis append_assoc)
qed

lemma build_prompt_shape:
  "\<exists>H. build_prompt query ctx =
     H @ TrimSpace (context_loop ctx 0 []) @ [CHR 0x0A, CHR 0x0A] @ ''Question: '' @ query
       @ [CHR 0x0A, CHR 0x0A] @ ''Answer:''"
  unfolding build_prompt_def Let_def
  by (rule exI [of _ "''You are a helpful assistant that answers questions based on the provided context.''
           @ [CHR 0x0A]
         @ ''Use the context below to answer the user'' @ [CHR 0x27]
           @ ''s question. If the answer cannot be found in the context,'' @ [CHR 0x0A]
         @ ''say '' @ [CHR 0x22] @ fallback_sentence @ [CHR 0x22] @ [CHR 0x0A, CHR 0x0A]
         @ ''Context:'' @ [CHR 0x0A]"]) simp

lemma build_prompt_contains_query: "sublist query (build_prompt query ctx)"
proof -
  obtain H where "build_prompt query ctx =
     (H @ TrimSpace (context_loop ctx 0 []) @ [CHR 0x0A, CHR 0x0A] @ ''Question: '') @ query
       @ ([CHR 0x0A, CHR 0x0A] @ ''Answer:'')"
    using build_prompt_shape [of query ctx] by auto
  then show ?thesis by (metis sublist_appendI)
qed

lemma build_prompt_contains_context:
  "sublist x (TrimSpace (context_loop ctx 0 [])) \<Longrightarrow> sublist x (build_prompt query ctx)"
proof -
  assume a: "sublist x (TrimSpace (context_loop ctx 0 []))"
  obtain H where "build_prompt query ctx =
     H @ TrimSpace (context_loop ctx 0 []) @ ([CHR 0x0A, CHR 0x0A] @ ''Question: '' @ query
       @ [CHR 0x0A, CHR 0x0A] @ ''Answer:'')"
    using build_prompt_shape [of query ctx] by auto
  then show ?thesis using sublist_in_context [OF a] by metis
qed

lemma build_prompt_contains_earlier:
  assumes "d \<in> set (butlast docs)"
  shows "sublist (Text d) (build_prompt query docs)"
proof -
  have ne: "docs \<noteq> []" using assms by auto
  then have docs: "docs = butlast docs @ [last docs]" by simp
  obtain R' where "TrimSpace (context_loop (butlast docs @ [last docs]) 0 []) =
      context_loop (butlast docs) 0 []
        @ (Sprintf_Source (int (length (butlast docs)) + 1)
             (fmul (Similarity (last docs)) (f32_lit 100)) (Source (last docs))
           @ ''Content:'' @ R')"
    using TrimSpace_context_keeps_label [of "butlast docs" "last docs"] by auto
  moreover have "sublist (Text d) (context_loop (butlast docs) 0 [])"
    using assms by (rule context_loop_contains)
  ultimately have "sublist (Text d) (TrimSpace (context_loop (butlast docs @ [last docs]) 0 []))"
    using sublist_in_left by metis
  then show ?thesis using docs build_prompt_contains_context by metis
qed

lemma TrimSpace_context_keeps_trimmed_last:
  "sublist (TrimRightFunc (Text d) IsSpace) (TrimSpace (context_loop (ds @ [d]) 0 []))"
proof (cases "TrimRightFunc (Text d) IsSpace = []")
  case True
  then show ?thesis by simp
next
  case False
  let ?X = "context_loop ds 0 []
            @ Sprintf_Source (int (length ds) + 1) (fmul (Similarity d) (f32_lit 100)) (Source d)"
  let ?Y = "?X @ ''Content: ''"
  obtain A where A: "?X = CHR ''S'' # A" using context_head by blast
  have B: "context_loop (ds @ [d]) 0 [] = ((?Y @ Text d) @ [CHR 0x0A]) @ [CHR 0x0A]"
    unfolding context_loop_snoc doc_block_def by simp
  have h: "byte CHR ''S'' < RuneSelf" "\<not> asciiSpace (byte CHR ''S'')"
    and nl: "asciiSpace (byte (CHR 0x0A))"
    by (simp_all add: byte_def RuneSelf_def asciiSpace_def)
  have "context_loop (ds @ [d]) 0 [] = CHR ''S'' # (A @ ''Content: '' @ Text d @ [CHR 0x0A, CHR 0x0A])"
    unfolding B using A by simp
  then have "TrimSpace (context_loop (ds @ [d]) 0 []) = TrimSpace_stop (context_loop (ds @ [d]) 0 [])"
    using h by (simp add: TrimSpace.simps not_le)
  also have "\<dots> = TrimRightFunc (((?Y @ Text d) @ [CHR 0x0A]) @ [CHR 0x0A]) IsSpace"
    unfolding TrimSpace_stop_eq B ..
  also have "\<dots> = TrimRightFunc (?Y @ Text d) IsSpace"
    by (simp only: TrimRightFunc_strip [OF nl])
  also have "\<dots> = ?Y @ TrimRightFunc (Text d) IsSpace"
    by (rule TrimRightFunc_context [OF _ _ False]) (simp_all add: byte_def RuneSelf_def)
  finally show ?thesis by (metis sublist_append_leftI)
qed

lemma build_prompt_contains_trimmed_last:
  assumes "docs \<noteq> []"
  shows "sublist (TrimRightFunc (Text (last docs)) IsSpace) (build_prompt query docs)"
proof -
  have docs: "docs = butlast docs @ [last docs]" using assms by simp
  have "sublist (TrimRightFunc (Text (last docs)) IsSpace)
          (TrimSpace (context_loop (butlast docs @ [last docs]) 0 []))"
    by (rule TrimSpace_context_keeps_trimmed_last)
  then show ?thesis using docs build_prompt_contains_context by metis
qed

lemma TrimRightFunc_dogs: "TrimRightFunc ''info about dogs'' IsSpace = ''info about dogs''"
  by code_simp

text \<open>
  Claim C9. With no documents \<^verbatim>\<open>GenerateResponse\<close> still sends a user message whose
  content is not empty: it is the fixed instruction text with an empty context block,
  it contains the fallback sentence
  \<^verbatim>\<open>I don't have enough information to answer that question based on the provided context.\<close>
  and it contains the query.
\<close>

theorem GenerateResponse_no_documents:
  fixes r :: "('e, 'c, 's) RAGEngine" and w :: "('e, 'c, 's) world"
  shows
  "(\<exists>res w'. GenerateResponse r query [] model w = Inr (res, w')
       \<and> calls w' = calls w @ [ChatCompletionCall model (build_messages query [])])
   \<and> length (build_messages query []) = 2
   \<and> Role (build_messages query [] ! 1) = ''user''
   \<and> Content (build_messages query [] ! 1) \<noteq> []
   \<and> sublist (''I don'' @ [CHR 0x27] @ ''t have enough information to answer that question based on the provided context.'')
        (Content (build_messages query [] ! 1))
   \<and> sublist query (Content (build_messages query [] ! 1))
   \<and> Content (build_messages query [] ! 1) =
        ''You are a helpful assistant that answers questions based on the provided context.''
           @ [CHR 0x0A]
         @ ''Use the context below to answer the user'' @ [CHR 0x27]
           @ ''s question. If the answer cannot be found in the context,'' @ [CHR 0x0A]
         @ ''say '' @ [CHR 0x22]
         @ ''I don'' @ [CHR 0x27] @ ''t have enough information to answer that question based on the provided context.''
         @ [CHR 0x22] @ [CHR 0x0A, CHR 0x0A]
         @ ''Context:'' @ [CHR 0x0A] @ [CHR 0x0A, CHR 0x0A] @ ''Question: '' @ query
         @ [CHR 0x0A, CHR 0x0A] @ ''Answer:''"
proof (intro conjI)
  show "\<exists>res w'. GenerateResponse r query [] model w = Inr (res, w')
       \<and> calls w' = calls w @ [ChatCompletionCall model (build_messages query [])]"
    using GenerateResponse_eq [of r query "[]" model w] by blast
  show "length (build_messages query []) = 2" by (simp add: build_messages_def)
  show "Role (build_messages query [] ! 1) = ''user''" by (simp add: build_messages_def)
  show "Content (build_messages query [] ! 1) \<noteq> []"
    by (simp add: build_messages_def build_prompt_def)
  have "build_prompt query [] =
      (''You are a helpful assistant that answers questions based on the provided context.''
           @ [CHR 0x0A]
         @ ''Use the context below to answer the user'' @ [CHR 0x27]
           @ ''s question. If the answer cannot be found in the context,'' @ [CHR 0x0A]
         @ ''say '' @ [CHR 0x22])
       @ (''I don'' @ [CHR 0x27] @ ''t have enough information to answer that question based on the provided context.'')
       @ ([CHR 0x22] @ [CHR 0x0A, CHR 0x0A]
         @ ''Context:'' @ [CHR 0x0A] @ [CHR 0x0A, CHR 0x0A] @ ''Question: '' @ query
         @ [CHR 0x0A, CHR 0x0A] @ ''Answer:'')"
    by (simp add: build_prompt_def fallback_sentence_def TrimSpace.simps)
  then have "sublist (''I don'' @ [CHR 0x27] @ ''t have enough information to answer that question based on the provided context.'')
        (build_prompt query [])"
    by (metis sublist_appendI)
  then show "sublist (''I don'' @ [CHR 0x27] @ ''t have enough information to answer that question based on the provided context.'')
        (Content (build_messages query [] ! 1))"
    by (simp add: build_messages_def)
  show "sublist query (Content (build_messages query [] ! 1))"
    using build_prompt_contains_query [of query "[]"] by (simp add: build_messages_def)
  show "Content (build_messages query [] ! 1) =
        ''You are a helpful assistant that answers questions based on the provided context.''
           @ [CHR 0x0A]
         @ ''Use the context below to answer the user'' @ [CHR 0x27]
           @ ''s question. If the answer cannot be found in the context,'' @ [CHR 0x0A]
         @ ''say '' @ [CHR 0x22]
         @ ''I don'' @ [CHR 0x27] @ ''t have enough information to answer that question based on the provided context.''
         @ [CHR 0x22] @ [CHR 0x0A, CHR 0x0A]
         @ ''Context:'' @ [CHR 0x0A] @ [CHR 0x0A, CHR 0x0A] @ ''Question: '' @ query
         @ [CHR 0x0A, CHR 0x0A] @ ''Answer:''"
    by (simp add: build_messages_def build_prompt_def fallback_sentence_def TrimSpace.simps)
qed

text \<open>
  Claim C4, as amended. \<^verbatim>\<open>GenerateResponse\<close> passes the chat collaborator exactly two
  messages, the first with role \<^verbatim>\<open>system\<close>, the second with role \<^verbatim>\<open>user\<close>. The content of
  the user message contains the query verbatim, the text of every document but the
  last verbatim, and the text of the last document without the white space at its end
  (\<^verbatim>\<open>strings.TrimRightFunc(text, unicode.IsSpace)\<close>): the context block is passed through
  \<^verbatim>\<open>strings.TrimSpace\<close>, and the block ends where the last document ends.
\<close>

theorem GenerateResponse_messages:
  fixes r :: "('e, 'c, 's) RAGEngine" and w :: "('e, 'c, 's) world"
  shows
  "(\<exists>res w'. GenerateResponse r query docs model w = Inr (res, w')
       \<and> calls w' = calls w @ [ChatCompletionCall model (build_messages query docs)])
   \<and> length (build_messages query docs) = 2
   \<and> Role (build_messages query docs ! 0) = ''system''
   \<and> Role (build_messages query docs ! 1) = ''user''
   \<and> sublist query (Content (build_messages query docs ! 1))
   \<and> (\<forall>d\<in>set (butlast docs). sublist (Text d) (Content (build_messages query docs ! 1)))
   \<and> (docs \<noteq> [] \<longrightarrow>
        sublist (TrimRightFunc (Text (last docs)) IsSpace)
          (Content (build_messages query docs ! 1)))"
proof (intro conjI ballI impI)
  show "\<exists>res w'. GenerateResponse r query docs model w = Inr (res, w')
       \<and> calls w' = calls w @ [ChatCompletionCall model (build_messages query docs)]"
    using GenerateResponse_eq [of r query docs model w] by blast
  show "length (build_messages query docs) = 2" by (simp add: build_messages_def)
  show "Role (build_messages query docs ! 0) = ''system''" by (simp add: build_messages_def)
  show "Role (build_messages query docs ! 1) = ''user''" by (simp add: build_messages_def)
  show "sublist query (Content (build_messages query docs ! 1))"
    using build_prompt_contains_query [of query docs] by (simp add: build_messages_def)
next
  fix d assume "d \<in> set (butlast docs)"
  then show "sublist (Text d) (Content (build_messages query docs ! 1))"
    using build_prompt_contains_earlier [of d docs query] by (simp add: build_messages_def)
next
  assume "docs \<noteq> []"
  then show "sublist (TrimRightFunc (Text (last docs)) IsSpace)
          (Content (build_messages query docs ! 1))"
    using build_prompt_contains_trimmed_last [of docs query] by (simp add: build_messages_def)
qed

theorem GenerateResponse_messages_witness:
  "TrimRightFunc ''info about dogs'' IsSpace = ''info about dogs''
   \<and> sublist ''info about cats''
        (Content (build_messages ''question?''
           [\<lparr>Text = ''info about cats'', Source = ''src'', Similarity = Fin (14260634 / 16777216)\<rparr>,
            \<lparr>Text = ''info about dogs'', Source = ''src'', Similarity = Fin (1 / 2)\<rparr>] ! 1))
   \<and> sublist ''info about dogs''
        (Content (build_messages ''question?''
           [\<lparr>Text = ''info about cats'', Source = ''src'', Similarity = Fin (14260634 / 16777216)\<rparr>,
            \<lparr>Text = ''info about dogs'', Source = ''src'', Similarity = Fin (1 / 2)\<rparr>] ! 1))"
  using GenerateResponse_messages
    [of "NewRAGEngine (dummyOpenAI :: (unit, string \<times> Message list) OpenAIClient) dummyMilvus"
        "''question?''"
        "[\<lparr>Text = ''info about cats'', Source = ''src'', Similarity = Fin (14260634 / 16777216)\<rparr>,
          \<lparr>Text = ''info about dogs'', Source = ''src'', Similarity = Fin (1 / 2)\<rparr>]"
        "''gpt-test''"
        "\<lparr>chat_state = ([], []), store_state = ([], [], [], 0), calls = [], logged = []\<rparr>"]
  by (simp add: TrimRightFunc_dogs)

lemma f32_lit_100: "f32_lit 100 = Fin 100"
  unfolding f32_lit_def by (rule round_f32_exact [of _ 13107200 "- 17"]) (simp_all add: powr_minus)

lemma round_f32_50: "round_f32 50 = Fin 50"
  by (rule round_f32_exact [of _ 13107200 "- 18"]) (simp_all add: powr_minus)

lemma fmt_f1_50: "fmt_f1 (Fin 50) = ''50.0''"
  by (simp add: fmt_f1_def digits.simps digit_def)

lemma fmt_d_1: "fmt_d 1 = ''1''"
  by (simp add: fmt_d_def digits.simps digit_def)

lemma context_tab:
  "context_loop [\<lparr>Text = [CHR ''a'', CHR 0x09], Source = ''s'', Similarity = Fin (1 / 2)\<rparr>] 0 []
     = ''Source 1 (50.0% relevant): s'' @ [CHR 0x0A] @ ''Content: a'' @ [CHR 0x09, CHR 0x0A, CHR 0x0A]"
  by (simp add: Sprintf_Source_def f32_lit_100 round_f32_50 fmt_f1_50 fmt_d_1)

lemma TrimSpace_context_tab:
  "TrimSpace (''Source 1 (50.0% relevant): s'' @ [CHR 0x0A] @ ''Content: a'' @ [CHR 0x09, CHR 0x0A, CHR 0x0A])
     = ''Source 1 (50.0% relevant): s'' @ [CHR 0x0A] @ ''Content: a''"
  by code_simp

text \<open>
  Claim C4 as stated fails when the text of the last document ends in white space:
  for the single document with text \<^verbatim>\<open>a\<close> followed by a tabulator, and the query
  \<^verbatim>\<open>q\<close>, the context block is trimmed to end in \<^verbatim>\<open>Content: a\<close>, and the user message
  holds no tabulator at all.
\<close>

theorem user_message_drops_trailing_space:
  "\<not> sublist (Text \<lparr>Text = [CHR ''a'', CHR 0x09], Source = ''s'', Similarity = Fin (1 / 2)\<rparr>)
       (Content (build_messages ''q''
          [\<lparr>Text = [CHR ''a'', CHR 0x09], Source = ''s'', Similarity = Fin (1 / 2)\<rparr>] ! 1))"
proof
  assume "sublist (Text \<lparr>Text = [CHR ''a'', CHR 0x09], Source = ''s'', Similarity = Fin (1 / 2)\<rparr>)
       (Content (build_messages ''q''
          [\<lparr>Text = [CHR ''a'', CHR 0x09], Source = ''s'', Similarity = Fin (1 / 2)\<rparr>] ! 1))"
  then have "set [CHR ''a'', CHR 0x09] \<subseteq> set (build_prompt ''q''
          [\<lparr>Text = [CHR ''a'', CHR 0x09], Source = ''s'', Similarity = Fin (1 / 2)\<rparr>])"
    using set_mono_sublist by (fastforce simp: build_messages_def)
  moreover have "TrimSpace (context_loop
      [\<lparr>Text = [CHR ''a'', CHR 0x09], Source = ''s'', Similarity = Fin (1 / 2)\<rparr>] 0 [])
       = ''Source 1 (50.0% relevant): s'' @ [CHR 0x0A] @ ''Content: a''"
    by (simp only: context_tab TrimSpace_context_tab)
  ultimately show False
    by (simp add: build_prompt_def fallback_sentence_def del: context_loop.simps)
qed

end
